theory Spec2Isabelle
  imports Main "HOL-Library.Word" "HOL-Library.Sublist"
begin

section \<open>Bytes, fixed-width integers and the comparator\<close>

text \<open>
  Keys, values and block contents are byte strings (\<open>std::string\<close>, \<open>Binary\<close>): a
  \<open>string\<close> here is a list of 8-bit characters. The 32-bit fields of the format
  (\<open>uint32_t\<close>) are \<open>32 word\<close>; sizes of type \<open>std::size_t\<close> are \<open>nat\<close>.
\<close>

type_synonym u32 = "32 word"

text \<open>
  Modelled from the spec: \<open>encodeInt<uint32_t>\<close> and \<open>decodeInt<uint32_t>\<close> of
  \<open>cpp/misc/sst/encoding.h\<close>, which is not among the sources. The spec calls them
  fixed-width integer encode/decode and gives every field of the block layout as
  \<open>u32\<close>: four bytes, here least significant byte first.
\<close>

definition encodeInt :: "u32 \<Rightarrow> string" where
  "encodeInt v =
     (let n = unat v
      in [char_of n, char_of (n div 256), char_of (n div 65536), char_of (n div 16777216)])"

definition decodeInt :: "string \<Rightarrow> u32" where
  "decodeInt bs =
     of_nat (of_char (bs ! 0) + 256 * of_char (bs ! 1) +
             65536 * of_char (bs ! 2) + 16777216 * of_char (bs ! 3))"

text \<open>
  A read of \<open>n\<close> bytes at offset \<open>off\<close> of a buffer. The C++ reads through a raw
  pointer; a read that leaves the buffer is undefined behaviour and is \<open>None\<close> here.
\<close>

definition bytes_at :: "string \<Rightarrow> nat \<Rightarrow> nat \<Rightarrow> string option" where
  "bytes_at d off n = (if off + n \<le> length d then Some (take n (drop off d)) else None)"

definition decodeIntAt :: "string \<Rightarrow> nat \<Rightarrow> u32 option" where
  "decodeIntAt d off = map_option decodeInt (bytes_at d off 4)"

text \<open>\<open>std::string::resize(n)\<close>: cut to \<open>n\<close> bytes, or pad with zero bytes.\<close>

definition resize :: "string \<Rightarrow> nat \<Rightarrow> string" where
  "resize s n = take n s @ replicate (n - length s) (CHR 0x00)"

text \<open>
  Modelled from the spec: \<open>Binary::compare\<close>, which \<open>BytewiseComparator::compare\<close>
  calls and which is not among the sources: the three-way comparison of two byte
  strings, byte by byte as unsigned values, a proper prefix being smaller.
\<close>

fun bytewise_compare :: "string \<Rightarrow> string \<Rightarrow> int" where
  "bytewise_compare [] [] = 0"
| "bytewise_compare [] (y # ys) = - 1"
| "bytewise_compare (x # xs) [] = 1"
| "bytewise_compare (x # xs) (y # ys) =
     (if (of_char x :: nat) < of_char y then - 1
      else if (of_char y :: nat) < of_char x then 1
      else bytewise_compare xs ys)"

text \<open>Keys strictly increasing under a comparator \<open>cmp\<close> (later key compares greater).\<close>

definition strictly_increasing :: "(string \<Rightarrow> string \<Rightarrow> int) \<Rightarrow> string list \<Rightarrow> bool" where
  "strictly_increasing cmp ks = sorted_wrt (\<lambda>a b. cmp b a > 0) ks"

section \<open>BlockBuilder (block_builder.cpp)\<close>

text \<open>
  The members of the class, without the trailing underscore of the C++ names.
  \<open>comparator_\<close> and \<open>restarts_\<close> also name members of the iterator, so the
  builder's carry the prefix \<open>bb_\<close>. The types of \<open>counter\<close> and
  \<open>block_restart_interval\<close> are declared in headers that are not among the sources;
  they are counts, taken as \<open>nat\<close>.
\<close>

record BlockBuilder =
  bb_comparator :: "string \<Rightarrow> string \<Rightarrow> int"
  block_restart_interval :: nat
  buffer :: string
  bb_restarts :: "u32 list"
  counter :: nat
  finished :: bool
  last_key :: string

text \<open>The constructor: the restart list is seeded with offset 0.\<close>

definition BlockBuilder_new :: "(string \<Rightarrow> string \<Rightarrow> int) \<Rightarrow> nat \<Rightarrow> BlockBuilder" where
  "BlockBuilder_new cmp interval =
     \<lparr> bb_comparator = cmp, block_restart_interval = interval, buffer = [],
       bb_restarts = [0], counter = 0, finished = False, last_key = [] \<rparr>"

text \<open>
  The loop of \<open>add\<close> that counts the bytes the key shares with the previous key:
  \<open>while (shared < min_length && last_key_pice[shared] == key[shared]) shared++\<close>.
\<close>

function shared_loop :: "string \<Rightarrow> string \<Rightarrow> u32 \<Rightarrow> u32 \<Rightarrow> u32" where
  "shared_loop lk key min_length shared =
     (if shared < min_length \<and> lk ! unat shared = key ! unat shared
      then shared_loop lk key min_length (shared + 1)
      else shared)"
  by pat_completeness auto
termination
proof (relation "measure (\<lambda>(lk, key, m, s). unat m - unat s)")
  show "wf (measure (\<lambda>(lk, key, m, s). unat m - unat s))" by simp
next
  fix lk key :: string and min_length shared :: u32
  assume a: "shared < min_length \<and> lk ! unat shared = key ! unat shared"
  then have lt: "unat shared < unat min_length" by (simp add: word_less_nat_alt)
  have "unat min_length < 2 ^ 32" using unsigned_less [of min_length] by simp
  with lt have "unat shared + 1 < 2 ^ 32" by simp
  then have "unat (shared + 1) = unat shared + 1"
    by (simp add: unat_word_ariths)
  with lt show "((lk, key, min_length, shared + 1), (lk, key, min_length, shared))
      \<in> measure (\<lambda>(lk, key, m, s). unat m - unat s)" by simp
qed

declare shared_loop.simps [simp del]

text \<open>
  \<open>add\<close>. The three assertions of the source are failures of the model (\<open>None\<close>):
  \<open>finish()\<close> not yet called, the key greater than the previous one unless the buffer
  is empty, and the rebuilt \<open>last_key\<close> equal to the key.
\<close>

definition add :: "BlockBuilder \<Rightarrow> string \<Rightarrow> string \<Rightarrow> BlockBuilder option" where
  "add b key val =
     (if finished b then None
      else if \<not> (buffer b = [] \<or> bb_comparator b key (last_key b) > 0) then None
      else
        let lk = last_key b;
            shared = (if counter b < block_restart_interval b
                      then shared_loop lk key (of_nat (min (length lk) (length key))) 0
                      else 0);
            b1 = (if counter b < block_restart_interval b then b
                  else b\<lparr>bb_restarts := bb_restarts b @ [of_nat (length (buffer b))],
                         counter := 0\<rparr>);
            non_shared = (of_nat (length key - unat shared) :: u32);
            suffix = take (unat non_shared) (drop (unat shared) key);
            buf = buffer b1 @ encodeInt shared @ encodeInt non_shared
                    @ encodeInt (of_nat (length val)) @ suffix @ val;
            lk' = resize lk (unat shared) @ suffix
        in if lk' \<noteq> key then None
           else Some (b1\<lparr>buffer := buf, last_key := lk', counter := counter b1 + 1\<rparr>))"

text \<open>\<open>finish\<close> appends the restart offsets and their count and returns the buffer.\<close>

definition finish :: "BlockBuilder \<Rightarrow> string \<times> BlockBuilder" where
  "finish b =
     (let buf = buffer b @ concat (map encodeInt (bb_restarts b))
                  @ encodeInt (of_nat (length (bb_restarts b)))
      in (buf, b\<lparr>buffer := buf, finished := True\<rparr>))"

definition sizeEstimate :: "BlockBuilder \<Rightarrow> nat" where
  "sizeEstimate b = length (buffer b) + length (bb_restarts b) * 4 + 4"

definition reset :: "BlockBuilder \<Rightarrow> BlockBuilder" where
  "reset b = b\<lparr>buffer := [], last_key := [], counter := 0, finished := False,
               bb_restarts := [0]\<rparr>"

text \<open>A sequence of \<open>add\<close> calls, stopping at the first failed assertion.\<close>

fun add_all :: "BlockBuilder \<Rightarrow> (string \<times> string) list \<Rightarrow> BlockBuilder option" where
  "add_all b [] = Some b"
| "add_all b (kv # kvs) =
     (case add b (fst kv) (snd kv) of None \<Rightarrow> None | Some b' \<Rightarrow> add_all b' kvs)"

text \<open>Building a block: the adds in order, then \<open>finish\<close>.\<close>

definition build_block :: "BlockBuilder \<Rightarrow> (string \<times> string) list \<Rightarrow> string option" where
  "build_block b kvs = map_option (\<lambda>b'. fst (finish b')) (add_all b kvs)"

section \<open>Block and BlockIterator (block.cpp)\<close>

text \<open>
  \<open>Status\<close> is declared in \<open>cpp/tools/status.h\<close>, which is not among the sources; the
  iterator uses its default value, \<open>isOk()\<close>, and \<open>Status::NewCorruption(msg)\<close>.
\<close>

datatype Status = OK | Corruption string

definition isOk :: "Status \<Rightarrow> bool" where
  "isOk s = (s = OK)"

text \<open>
  The members of \<open>Block\<close>. Their types are declared in \<open>block.h\<close>, which is not among
  the sources; \<open>restart_offset_\<close> and \<open>num_restarts_\<close> are passed to the iterator's
  constructor as \<open>uint32_t\<close> and are 32-bit here.
\<close>

record Block =
  blk_data :: string
  blk_size :: nat
  restart_offset :: u32
  blk_num_restarts :: u32

text \<open>
  The constructor. It reads the restart count from the last four bytes (a buffer
  shorter than four bytes makes that read leave the buffer). In the branch marked
  \<open>invalid block\<close> the source sets \<open>size_ = 0\<close> and does not assign
  \<open>restart_offset_\<close>: the value that member then has is the parameter \<open>uninit\<close>.
\<close>

definition Block_new :: "u32 \<Rightarrow> string \<Rightarrow> Block option" where
  "Block_new uninit content =
     (let sz = length content
      in if sz < 4 then None
         else case decodeIntAt content (sz - 4) of
                None \<Rightarrow> None
              | Some n \<Rightarrow>
                  let max_num_restarts = (sz - 4) div 4
                  in if unat n > max_num_restarts
                     then Some \<lparr> blk_data = content, blk_size = 0,
                                 restart_offset = uninit, blk_num_restarts = n \<rparr>
                     else Some \<lparr> blk_data = content, blk_size = sz,
                                 restart_offset = of_nat (sz - unat ((1 + n) * 4)),
                                 blk_num_restarts = n \<rparr>)"

text \<open>
  The members of \<open>BlockIterator\<close>. \<open>val_\<close> is a \<open>Binary\<close>, a view (pointer and size):
  \<open>Some (off, n)\<close> is the view of \<open>n\<close> bytes at \<open>data_ + off\<close>, and \<open>None\<close> is the
  default-constructed or cleared view, which does not point into the block.
\<close>

record BlockIterator =
  comparator :: "string \<Rightarrow> string \<Rightarrow> int"
  data :: string
  restarts :: u32
  num_restarts :: u32
  current :: u32
  current_restart :: u32
  key :: string
  val :: "(nat \<times> nat) option"
  status :: Status

text \<open>\<open>Block::iterator\<close> and the iterator's constructor with its member initialisers.\<close>

definition iterator :: "Block \<Rightarrow> (string \<Rightarrow> string \<Rightarrow> int) \<Rightarrow> BlockIterator" where
  "iterator blk cmp =
     \<lparr> comparator = cmp, data = blk_data blk, restarts = restart_offset blk,
       num_restarts = blk_num_restarts blk, current = 0, current_restart = 0,
       key = [], val = None, status = OK \<rparr>"

definition valid :: "BlockIterator \<Rightarrow> bool" where
  "valid it = (current it < restarts it)"

text \<open>The bytes that the view returned by \<open>val()\<close> denotes.\<close>

definition val_bytes :: "BlockIterator \<Rightarrow> string option" where
  "val_bytes it = (case val it of None \<Rightarrow> Some [] | Some (off, n) \<Rightarrow> bytes_at (data it) off n)"

text \<open>
  \<open>getRestartOffset\<close>: the assertion \<open>idx < num_restarts_\<close>, then a 32-bit read at
  \<open>data_ + idx * sizeof(uint32_t)\<close>.
\<close>

definition getRestartOffset :: "BlockIterator \<Rightarrow> u32 \<Rightarrow> u32 option" where
  "getRestartOffset it idx =
     (if idx < num_restarts it then decodeIntAt (data it) (unat idx * 4) else None)"

definition seekToRestartPoint :: "BlockIterator \<Rightarrow> u32 \<Rightarrow> BlockIterator option" where
  "seekToRestartPoint it idx =
     (case getRestartOffset it idx of
        None \<Rightarrow> None
      | Some offset \<Rightarrow>
          Some (it\<lparr>key := [], current_restart := idx, val := Some (unat offset, 0)\<rparr>))"

text \<open>
  \<open>nextEntryOffset\<close>: \<open>(val_.data() + val_.size()) - data_\<close> as a \<open>uint32_t\<close>. The
  difference is defined only for a view into the block.
\<close>

definition nextEntryOffset :: "BlockIterator \<Rightarrow> u32 option" where
  "nextEntryOffset it = (case val it of None \<Rightarrow> None | Some (off, n) \<Rightarrow> Some (of_nat (off + n)))"

text \<open>
  \<open>decodeEntry\<close> returns a null pointer when \<open>p + 3 > limit\<close>, and otherwise reads three
  32-bit fields at \<open>p\<close> and returns \<open>p + 12\<close>. Pointers are offsets into the block.
\<close>

datatype entry_ptr = Nullptr | Entry nat u32 u32 u32

definition decodeEntry :: "string \<Rightarrow> nat \<Rightarrow> nat \<Rightarrow> entry_ptr option" where
  "decodeEntry d p limit =
     (if p + 3 > limit then Some Nullptr
      else case decodeIntAt d p of
             None \<Rightarrow> None
           | Some shared \<Rightarrow>
               (case decodeIntAt d (p + 4) of
                  None \<Rightarrow> None
                | Some non_shared \<Rightarrow>
                    (case decodeIntAt d (p + 8) of
                       None \<Rightarrow> None
                     | Some value_size \<Rightarrow> Some (Entry (p + 12) shared non_shared value_size))))"

text \<open>
  The loop at the end of \<open>parseNextKeyVal\<close>:
  \<open>while (current_restart_ + 1 < num_restarts_ && getRestartOffset(current_restart_) < current_)
  ++current_restart_\<close>.
\<close>

function restart_loop :: "BlockIterator \<Rightarrow> BlockIterator option" where
  "restart_loop it =
     (if current_restart it + 1 < num_restarts it
      then (case getRestartOffset it (current_restart it) of
              None \<Rightarrow> None
            | Some off \<Rightarrow>
                if off < current it
                then restart_loop (it\<lparr>current_restart := current_restart it + 1\<rparr>)
                else Some it)
      else Some it)"
  by pat_completeness auto
termination
proof (relation "measure (\<lambda>it. unat (num_restarts it) - unat (current_restart it))")
  show "wf (measure (\<lambda>it. unat (num_restarts it) - unat (current_restart it)))" by simp
next
  fix it :: BlockIterator and off :: u32
  assume "getRestartOffset it (current_restart it) = Some off"
  then have "current_restart it < num_restarts it"
    by (simp add: getRestartOffset_def split: if_splits)
  then have lt: "unat (current_restart it) < unat (num_restarts it)"
    by (simp add: word_less_nat_alt)
  have "unat (num_restarts it) < 2 ^ 32" using unsigned_less [of "num_restarts it"] by simp
  with lt have "unat (current_restart it) + 1 < 2 ^ 32" by simp
  then have "unat (current_restart it + 1) = unat (current_restart it) + 1"
    by (simp add: unat_word_ariths)
  with lt show "(it\<lparr>current_restart := current_restart it + 1\<rparr>, it)
      \<in> measure (\<lambda>it. unat (num_restarts it) - unat (current_restart it))" by simp
qed

declare restart_loop.simps [simp del]

text \<open>
  \<open>parseNextKeyVal\<close> returns its \<open>bool\<close> and the new state. The two returns of
  \<open>false\<close> after the line \<open>TODO(liubang): error handle\<close> leave the state as it is,
  \<open>current_\<close> apart.
\<close>

definition parseNextKeyVal :: "BlockIterator \<Rightarrow> (bool \<times> BlockIterator) option" where
  "parseNextKeyVal it =
     (case nextEntryOffset it of
        None \<Rightarrow> None
      | Some off \<Rightarrow>
          let it1 = it\<lparr>current := off\<rparr>;
              p = unat off;
              limit = unat (restarts it)
          in if p \<ge> limit
             then Some (False, it1\<lparr>current := restarts it, current_restart := num_restarts it\<rparr>)
             else (case decodeEntry (data it) p limit of
                     None \<Rightarrow> None
                   | Some Nullptr \<Rightarrow> Some (False, it1)
                   | Some (Entry q shared non_shared value_size) \<Rightarrow>
                       if length (key it) < unat shared then Some (False, it1)
                       else (case bytes_at (data it) q (unat non_shared) of
                               None \<Rightarrow> None
                             | Some ks \<Rightarrow>
                                 map_option (Pair True)
                                   (restart_loop
                                      (it1\<lparr>key := resize (key it) (unat shared) @ ks,
                                           val := Some (q + unat non_shared, unat value_size)\<rparr>)))))"

text \<open>\<open>first\<close> and \<open>next\<close>; the assertion \<open>valid()\<close> of \<open>next\<close> is a failure of the model.\<close>

definition first :: "BlockIterator \<Rightarrow> BlockIterator option" where
  "first it =
     (case seekToRestartPoint it 0 of
        None \<Rightarrow> None
      | Some it1 \<Rightarrow> map_option snd (parseNextKeyVal it1))"

definition next_entry :: "BlockIterator \<Rightarrow> BlockIterator option" where
  "next_entry it = (if \<not> valid it then None else map_option snd (parseNextKeyVal it))"

text \<open>
  \<open>last\<close>: \<open>while (parseNextKeyVal() && nextEntryOffset() < restarts_) {}\<close>. The loop
  need not end on a malformed block: not returning is \<open>None\<close>.
\<close>

partial_function (option) last_loop :: "BlockIterator \<Rightarrow> BlockIterator option" where
  "last_loop it =
     (case parseNextKeyVal it of
        None \<Rightarrow> None
      | Some (ok, it1) \<Rightarrow>
          if ok
          then (case nextEntryOffset it1 of
                  None \<Rightarrow> None
                | Some off \<Rightarrow> if off < restarts it1 then last_loop it1 else Some it1)
          else Some it1)"

declare last_loop.simps [code]

definition last_entry :: "BlockIterator \<Rightarrow> BlockIterator option" where
  "last_entry it =
     (case seekToRestartPoint it (num_restarts it - 1) of
        None \<Rightarrow> None
      | Some it1 \<Rightarrow> last_loop it1)"

text \<open>
  \<open>prev\<close>: the first loop steps \<open>current_restart_\<close> back to a restart point before
  \<open>old\<close> (\<open>Inl\<close> is the early return at restart point 0), the second parses forward.
\<close>

function prev_restart_loop :: "BlockIterator \<Rightarrow> u32 \<Rightarrow> (BlockIterator + BlockIterator) option" where
  "prev_restart_loop it old =
     (case getRestartOffset it (current_restart it) of
        None \<Rightarrow> None
      | Some off \<Rightarrow>
          if off \<ge> old
          then (if current_restart it = 0
                then Some (Inl (it\<lparr>current := restarts it, current_restart := num_restarts it\<rparr>))
                else prev_restart_loop (it\<lparr>current_restart := current_restart it - 1\<rparr>) old)
          else Some (Inr it))"
  by pat_completeness auto
termination
proof (relation "measure (\<lambda>(it, old). unat (current_restart it))")
  show "wf (measure (\<lambda>(it, old). unat (current_restart it)))" by simp
next
  fix it :: BlockIterator and old off :: u32
  assume "current_restart it \<noteq> 0"
  then have "unat (current_restart it - 1) < unat (current_restart it)"
    by (simp add: unat_minus_one) (simp add: unat_gt_0)
  then show "((it\<lparr>current_restart := current_restart it - 1\<rparr>, old), (it, old))
      \<in> measure (\<lambda>(it, old). unat (current_restart it))" by simp
qed

declare prev_restart_loop.simps [simp del]

partial_function (option) prev_loop :: "BlockIterator \<Rightarrow> u32 \<Rightarrow> BlockIterator option" where
  "prev_loop it old =
     (case parseNextKeyVal it of
        None \<Rightarrow> None
      | Some (ok, it1) \<Rightarrow>
          if ok
          then (case nextEntryOffset it1 of
                  None \<Rightarrow> None
                | Some off \<Rightarrow> if off < old then prev_loop it1 old else Some it1)
          else Some it1)"

declare prev_loop.simps [code]

definition prev_entry :: "BlockIterator \<Rightarrow> BlockIterator option" where
  "prev_entry it =
     (if \<not> valid it then None
      else let old = current it
           in (case prev_restart_loop it old of
                 None \<Rightarrow> None
               | Some (Inl it1) \<Rightarrow> Some it1
               | Some (Inr it1) \<Rightarrow>
                   (case seekToRestartPoint it1 (current_restart it1) of
                      None \<Rightarrow> None
                    | Some it2 \<Rightarrow> prev_loop it2 old)))"

text \<open>
  \<open>seek\<close>. The binary search over the restart points returns the final \<open>left\<close>
  (\<open>Inr\<close>) or, when it meets a null pointer or a nonzero \<open>shared\<close>, the state in
  which \<open>seek\<close> returns at once (\<open>Inl\<close>). \<open>mid_key\<close> is a view of \<open>non_shared\<close> bytes
  that the comparator reads.
\<close>

partial_function (option) binary_search ::
  "BlockIterator \<Rightarrow> string \<Rightarrow> u32 \<Rightarrow> u32 \<Rightarrow> (BlockIterator + u32) option" where
  "binary_search it target left right =
     (if left < right
      then let mid = (left + right + 1) div 2
           in (case getRestartOffset it mid of
                None \<Rightarrow> None
              | Some offset \<Rightarrow>
                  (case decodeEntry (data it) (unat offset) (unat (restarts it)) of
                     None \<Rightarrow> None
                   | Some Nullptr \<Rightarrow>
                       Some (Inl (it\<lparr>status := Corruption ''invalid entry in block'',
                                      current := restarts it,
                                      current_restart := num_restarts it,
                                      key := [], val := None\<rparr>))
                   | Some (Entry key_ptr shared non_shared value_size) \<Rightarrow>
                       if shared \<noteq> 0
                       then Some (Inl (it\<lparr>status := Corruption ''invalid entry in block'',
                                           current := restarts it,
                                           current_restart := num_restarts it,
                                           key := [], val := None\<rparr>))
                       else (case bytes_at (data it) key_ptr (unat non_shared) of
                               None \<Rightarrow> None
                             | Some mid_key \<Rightarrow>
                                 if comparator it mid_key target < 0
                                 then binary_search it target mid right
                                 else binary_search it target left (mid - 1))))
      else Some (Inr left))"

partial_function (option) seek_loop :: "BlockIterator \<Rightarrow> string \<Rightarrow> BlockIterator option" where
  "seek_loop it target =
     (case parseNextKeyVal it of
        None \<Rightarrow> None
      | Some (ok, it1) \<Rightarrow>
          if \<not> ok then Some it1
          else if comparator it1 (key it1) target \<ge> 0 then Some it1
          else seek_loop it1 target)"

declare binary_search.simps [code] seek_loop.simps [code]

definition seek :: "BlockIterator \<Rightarrow> string \<Rightarrow> BlockIterator option" where
  "seek it target =
     (let current_key_compare = (if valid it then comparator it (key it) target else 0);
          left = (if valid it \<and> current_key_compare < 0 then current_restart it else 0);
          right = (if valid it \<and> \<not> current_key_compare < 0 \<and> current_key_compare > 0
                   then current_restart it else num_restarts it - 1)
      in if valid it \<and> \<not> current_key_compare < 0 \<and> \<not> current_key_compare > 0 then Some it
         else (case binary_search it target left right of
                 None \<Rightarrow> None
               | Some (Inl it1) \<Rightarrow> Some it1
               | Some (Inr left1) \<Rightarrow>
                   if \<not> (current_key_compare = 0 \<or> valid it) then None
                   else let skip_seek = (left1 = current_restart it \<and> current_key_compare < 0)
                        in (case (if \<not> skip_seek then seekToRestartPoint it left1 else Some it) of
                              None \<Rightarrow> None
                            | Some it2 \<Rightarrow> seek_loop it2 target)))"

section \<open>Notions of the specification\<close>

text \<open>The length of the longest common byte prefix of two keys.\<close>

definition common_prefix_length :: "string \<Rightarrow> string \<Rightarrow> nat" where
  "common_prefix_length a b = length (longest_common_prefix a b)"

text \<open>
  The byte layout of one entry with a given \<open>shared\<close> length:
  \<open>u32 shared | u32 non_shared | u32 value_len | key suffix | value\<close>.
\<close>

definition entry_bytes :: "nat \<Rightarrow> string \<Rightarrow> string \<Rightarrow> string" where
  "entry_bytes sh k v =
     encodeInt (of_nat sh) @ encodeInt (of_nat (length k - sh)) @ encodeInt (of_nat (length v))
       @ drop sh k @ v"

text \<open>
  The restart invariant for the entries \<open>kvs\<close> and the interval \<open>N\<close>: entry \<open>i\<close> has
  \<open>shared = 0\<close> when \<open>i\<close> is a multiple of \<open>N\<close>, and otherwise shares the longest
  common prefix with the key before it. \<open>expected_buffer N kvs n\<close> is the layout of the
  first \<open>n\<close> entries under that rule and \<open>entry_offset N kvs i\<close> the offset of entry \<open>i\<close>.
  \<open>expected_restarts\<close> are the offsets that the restart table is to hold, as numbers:
  0 and the offset of every later entry whose index is a multiple of \<open>N\<close>; and
  \<open>expected_fields\<close> the \<open>(shared, non_shared)\<close> of every entry, as numbers.
\<close>

definition expected_shared :: "nat \<Rightarrow> (string \<times> string) list \<Rightarrow> nat \<Rightarrow> nat" where
  "expected_shared N kvs i =
     (if i mod N = 0 then 0
      else common_prefix_length (fst (kvs ! (i - 1))) (fst (kvs ! i)))"

definition expected_entry :: "nat \<Rightarrow> (string \<times> string) list \<Rightarrow> nat \<Rightarrow> string" where
  "expected_entry N kvs i = entry_bytes (expected_shared N kvs i) (fst (kvs ! i)) (snd (kvs ! i))"

definition expected_buffer :: "nat \<Rightarrow> (string \<times> string) list \<Rightarrow> nat \<Rightarrow> string" where
  "expected_buffer N kvs n = concat (map (expected_entry N kvs) [0..<n])"

definition entry_offset :: "nat \<Rightarrow> (string \<times> string) list \<Rightarrow> nat \<Rightarrow> nat" where
  "entry_offset N kvs i = length (expected_buffer N kvs i)"

definition expected_restarts :: "nat \<Rightarrow> (string \<times> string) list \<Rightarrow> nat list" where
  "expected_restarts N kvs =
     0 # map (entry_offset N kvs) (filter (\<lambda>i. i mod N = 0) [1..<length kvs])"

definition expected_fields :: "nat \<Rightarrow> (string \<times> string) list \<Rightarrow> (nat \<times> nat) list" where
  "expected_fields N kvs =
     map (\<lambda>i. (expected_shared N kvs i, length (fst (kvs ! i)) - expected_shared N kvs i))
       [0..<length kvs]"

text \<open>
  The fields \<open>(shared, non_shared)\<close> of the first \<open>n\<close> entries of a buffer, as
  numbers, read with the iterator's \<open>decodeEntry\<close> from offset \<open>p\<close> on; and the restart
  offsets that a builder has recorded, as numbers.
\<close>

fun decode_fields :: "nat \<Rightarrow> string \<Rightarrow> nat \<Rightarrow> (nat \<times> nat) list option" where
  "decode_fields 0 d p = Some []"
| "decode_fields (Suc n) d p =
     (case decodeEntry d p (length d) of
        Some (Entry q shared non_shared value_size) \<Rightarrow>
          map_option (Cons (unat shared, unat non_shared))
            (decode_fields n d (q + unat non_shared + unat value_size))
      | _ \<Rightarrow> None)"

definition encoded_fields ::
  "(string \<Rightarrow> string \<Rightarrow> int) \<Rightarrow> nat \<Rightarrow> (string \<times> string) list \<Rightarrow> (nat \<times> nat) list option" where
  "encoded_fields cmp N kvs =
     (case add_all (BlockBuilder_new cmp N) kvs of
        None \<Rightarrow> None
      | Some b \<Rightarrow> decode_fields (length kvs) (buffer b) 0)"

definition recorded_restarts ::
  "(string \<Rightarrow> string \<Rightarrow> int) \<Rightarrow> nat \<Rightarrow> (string \<times> string) list \<Rightarrow> nat list option" where
  "recorded_restarts cmp N kvs =
     map_option (\<lambda>b. map unat (bb_restarts b)) (add_all (BlockBuilder_new cmp N) kvs)"

text \<open>
  The 32-bit fields bound the inputs of the format: every key shorter than \<open>2^32\<close>
  bytes, and \<open>block_bound\<close>, an upper bound of the length of the finished block
  (twelve bytes of fields and at most one restart offset for each entry, the seeded
  restart offset and the restart count), below \<open>2^32\<close>.
\<close>

definition keys_fit :: "(string \<times> string) list \<Rightarrow> bool" where
  "keys_fit kvs = (\<forall>kv \<in> set kvs. length (fst kv) < 4294967296)"

definition block_bound :: "(string \<times> string) list \<Rightarrow> nat" where
  "block_bound kvs = sum_list (map (\<lambda>kv. 16 + length (fst kv) + length (snd kv)) kvs) + 8"

definition block_fits :: "(string \<times> string) list \<Rightarrow> bool" where
  "block_fits kvs = (block_bound kvs < 4294967296)"

text \<open>
  A reader's loops. Forward: \<open>for (it->first(); it->valid(); it->next())\<close> collecting
  \<open>(key(), val())\<close>; backward: \<open>for (it->last(); it->valid(); it->prev())\<close>. The
  counter bounds the number of entries collected; an iterator still valid when it
  reaches 0 gives \<open>None\<close>.
\<close>

fun collect_next :: "nat \<Rightarrow> BlockIterator \<Rightarrow> ((string \<times> string) list \<times> BlockIterator) option" where
  "collect_next 0 it = (if valid it then None else Some ([], it))"
| "collect_next (Suc n) it =
     (if \<not> valid it then Some ([], it)
      else case val_bytes it of
             None \<Rightarrow> None
           | Some v \<Rightarrow>
               (case next_entry it of
                  None \<Rightarrow> None
                | Some it1 \<Rightarrow>
                    map_option (\<lambda>(r, e). ((key it, v) # r, e)) (collect_next n it1)))"

definition iterate_forward ::
  "nat \<Rightarrow> BlockIterator \<Rightarrow> ((string \<times> string) list \<times> BlockIterator) option" where
  "iterate_forward n it = (case first it of None \<Rightarrow> None | Some it1 \<Rightarrow> collect_next n it1)"

fun collect_prev :: "nat \<Rightarrow> BlockIterator \<Rightarrow> ((string \<times> string) list \<times> BlockIterator) option" where
  "collect_prev 0 it = (if valid it then None else Some ([], it))"
| "collect_prev (Suc n) it =
     (if \<not> valid it then Some ([], it)
      else case val_bytes it of
             None \<Rightarrow> None
           | Some v \<Rightarrow>
               (case prev_entry it of
                  None \<Rightarrow> None
                | Some it1 \<Rightarrow>
                    map_option (\<lambda>(r, e). ((key it, v) # r, e)) (collect_prev n it1)))"

definition iterate_backward ::
  "nat \<Rightarrow> BlockIterator \<Rightarrow> ((string \<times> string) list \<times> BlockIterator) option" where
  "iterate_backward n it = (case last_entry it of None \<Rightarrow> None | Some it1 \<Rightarrow> collect_prev n it1)"

text \<open>
  An iterator over the block that \<open>Block\<close> makes of some bytes, and over the block
  built from \<open>kvs\<close> with restart interval \<open>N\<close>.
\<close>

definition iterator_over ::
  "(string \<Rightarrow> string \<Rightarrow> int) \<Rightarrow> u32 \<Rightarrow> string \<Rightarrow> BlockIterator option" where
  "iterator_over cmp uninit bytes = map_option (\<lambda>blk. iterator blk cmp) (Block_new uninit bytes)"

definition built_iterator ::
  "(string \<Rightarrow> string \<Rightarrow> int) \<Rightarrow> nat \<Rightarrow> u32 \<Rightarrow> (string \<times> string) list \<Rightarrow> BlockIterator option" where
  "built_iterator cmp N uninit kvs =
     (case build_block (BlockBuilder_new cmp N) kvs of
        None \<Rightarrow> None
      | Some bytes \<Rightarrow> iterator_over cmp uninit bytes)"

text \<open>
  What a reader sees of an iterator: \<open>valid()\<close>, \<open>key()\<close>, the bytes of \<open>val()\<close> and
  \<open>status()\<close>; \<open>seek\<close> with the target first; and a forward iteration over the block made
  of some bytes, with the status at its end.
\<close>

definition observe :: "BlockIterator \<Rightarrow> bool \<times> string \<times> string option \<times> Status" where
  "observe it = (valid it, key it, val_bytes it, status it)"

definition seek_to :: "string \<Rightarrow> BlockIterator \<Rightarrow> BlockIterator option" where
  "seek_to target it = seek it target"

definition iterate_bytes ::
  "(string \<Rightarrow> string \<Rightarrow> int) \<Rightarrow> u32 \<Rightarrow> string \<Rightarrow> nat \<Rightarrow> ((string \<times> string) list \<times> Status) option" where
  "iterate_bytes cmp uninit bytes n =
     (case iterator_over cmp uninit bytes of
        None \<Rightarrow> None
      | Some it \<Rightarrow> map_option (\<lambda>(r, e). (r, status e)) (iterate_forward n it))"

text \<open>
  An iterator over the block of \<open>kvs\<close> followed by a trailer \<open>T\<close> that is about to
  parse entry \<open>i\<close>: its view ends where entry \<open>i\<close> starts and its key is the key before.
\<close>

definition at_entry ::
  "nat \<Rightarrow> (string \<times> string) list \<Rightarrow> string \<Rightarrow> nat \<Rightarrow> BlockIterator \<Rightarrow> bool" where
  "at_entry N kvs T i it \<longleftrightarrow>
     data it = expected_buffer N kvs (length kvs) @ T
     \<and> restarts it = of_nat (entry_offset N kvs (length kvs))
     \<and> 4 * unat (num_restarts it) \<le> length (data it)
     \<and> current_restart it < num_restarts it
     \<and> (\<exists>off len. val it = Some (off, len) \<and> off + len = entry_offset N kvs i)
     \<and> (0 < i \<longrightarrow> key it = fst (kvs ! (i - 1)))"

text \<open>The concrete scenario of the specification, and a builder that has been used.\<close>

definition example_kvs :: "(string \<times> string) list" where
  "example_kvs = [(''apple'', ''1''), (''application'', ''2''), (''banana'', ''3'')]"

definition used_builder :: BlockBuilder where
  "used_builder =
     \<lparr> bb_comparator = bytewise_compare, block_restart_interval = 2, buffer = ''stale'',
       bb_restarts = [0, 9], counter = 1, finished = True, last_key = ''zebra'' \<rparr>"

text \<open>
  The block of a builder with no entry, and an iterator in any position over a block.
\<close>

definition empty_block_bytes :: string where
  "empty_block_bytes = [CHR 0x00, CHR 0x00, CHR 0x00, CHR 0x00, CHR 0x01, CHR 0x00, CHR 0x00, CHR 0x00]"

definition empty_block :: Block where
  "empty_block = \<lparr> blk_data = empty_block_bytes, blk_size = 8, restart_offset = 0, blk_num_restarts = 1 \<rparr>"

definition positioned :: "BlockIterator \<Rightarrow> u32 \<Rightarrow> u32 \<Rightarrow> string \<Rightarrow> (nat \<times> nat) option \<Rightarrow> BlockIterator" where
  "positioned it c r k v = it\<lparr>current := c, current_restart := r, key := k, val := v\<rparr>"

text \<open>
  Two entries with a restart point each, and one entry: the bytes of their blocks and
  the fresh iterators over them. The first key of the two is twelve bytes long, so
  that the twelve bytes at offset 12 of the block are the key itself.
\<close>

definition two_entries :: "(string \<times> string) list" where
  "two_entries = [(''aaaaaaaaaaaa'', ''x''), (''b'', ''y'')]"

definition two_entries_block :: string where
  "two_entries_block =
     [CHR 0x00, CHR 0x00, CHR 0x00, CHR 0x00, CHR 0x0C, CHR 0x00, CHR 0x00, CHR 0x00,
      CHR 0x01, CHR 0x00, CHR 0x00, CHR 0x00] @ ''aaaaaaaaaaaa'' @ ''x'' @
     [CHR 0x00, CHR 0x00, CHR 0x00, CHR 0x00, CHR 0x01, CHR 0x00, CHR 0x00, CHR 0x00,
      CHR 0x01, CHR 0x00, CHR 0x00, CHR 0x00, CHR ''b'', CHR ''y'',
      CHR 0x00, CHR 0x00, CHR 0x00, CHR 0x00, CHR 0x19, CHR 0x00, CHR 0x00, CHR 0x00,
      CHR 0x02, CHR 0x00, CHR 0x00, CHR 0x00]"

definition two_entries_iterator :: BlockIterator where
  "two_entries_iterator =
     \<lparr> comparator = bytewise_compare, data = two_entries_block, restarts = 39,
       num_restarts = 2, current = 0, current_restart = 0, key = [], val = None,
       status = OK \<rparr>"

definition one_entry :: "(string \<times> string) list" where
  "one_entry = [(''a'', ''x'')]"

definition one_entry_block :: string where
  "one_entry_block =
     [CHR 0x00, CHR 0x00, CHR 0x00, CHR 0x00, CHR 0x01, CHR 0x00, CHR 0x00, CHR 0x00,
      CHR 0x01, CHR 0x00, CHR 0x00, CHR 0x00, CHR ''a'', CHR ''x'',
      CHR 0x00, CHR 0x00, CHR 0x00, CHR 0x00, CHR 0x01, CHR 0x00, CHR 0x00, CHR 0x00]"

definition one_entry_iterator :: BlockIterator where
  "one_entry_iterator =
     \<lparr> comparator = bytewise_compare, data = one_entry_block, restarts = 14,
       num_restarts = 1, current = 0, current_restart = 0, key = [], val = None,
       status = OK \<rparr>"

text \<open>
  Damaged blocks: a data region of two bytes, too short for an entry, with the
  restart offset 0 and the restart count 1; the block of the
  one entry with its restart offset overwritten by \<open>0xFFFFFFFF\<close>; the same block cut by
  its last byte.
\<close>

definition short_entry_block :: string where
  "short_entry_block = [CHR 0x00, CHR 0x00] @ encodeInt 0 @ encodeInt 1"

definition short_entry_iterator :: BlockIterator where
  "short_entry_iterator =
     \<lparr> comparator = bytewise_compare, data = short_entry_block, restarts = 2,
       num_restarts = 1, current = 0, current_restart = 0, key = [], val = None,
       status = OK \<rparr>"

definition overwritten_block :: string where
  "overwritten_block = take 14 one_entry_block @ encodeInt 4294967295 @ drop 18 one_entry_block"

definition truncated_block :: string where
  "truncated_block = butlast one_entry_block"

text \<open>
  The entries that a reader gets from the block built from \<open>kvs\<close>; an entry whose
  value is \<open>2^32\<close> bytes long; and such an entry followed by a small one.
\<close>

definition entries_read ::
  "(string \<Rightarrow> string \<Rightarrow> int) \<Rightarrow> nat \<Rightarrow> u32 \<Rightarrow> (string \<times> string) list
     \<Rightarrow> (string \<times> string) list option" where
  "entries_read cmp N uninit kvs =
     (case built_iterator cmp N uninit kvs of
        None \<Rightarrow> None
      | Some it \<Rightarrow> map_option fst (iterate_forward (length kvs) it))"

definition huge_value :: string where
  "huge_value = replicate 4294967296 (CHR ''v'')"

definition huge_entry :: "(string \<times> string) list" where
  "huge_entry = [(''k'', huge_value)]"

definition huge_then_small :: "(string \<times> string) list" where
  "huge_then_small = [(''a'', huge_value), (''b'', ''y'')]"

section \<open>Properties of the encoding\<close>

lemma length_encodeInt [simp]: "length (encodeInt v) = 4"
  by (simp add: encodeInt_def Let_def)

lemma byte_decomposition:
  assumes n: "(n::nat) < 4294967296"
  shows "n mod 256 + 256 * (n div 256 mod 256) + 65536 * (n div 65536 mod 256)
          + 16777216 * (n div 16777216 mod 256) = n"
proof -
  have d: "n div 65536 = (n div 256) div 256" "n div 16777216 = ((n div 256) div 256) div 256"
    by (simp_all add: div_mult2_eq [symmetric])
  have s: "n div 256 div 256 div 256 < 256" using n by simp
  then have "n div 256 div 256 div 256 mod 256 = n div 256 div 256 div 256" by simp
  moreover have "n = n mod 256 + 256 * (n div 256)" by simp
  moreover have "n div 256 = n div 256 mod 256 + 256 * (n div 256 div 256)" by simp
  moreover have "n div 256 div 256 = n div 256 div 256 mod 256 + 256 * (n div 256 div 256 div 256)"
    by simp
  ultimately show ?thesis unfolding d by linarith
qed

lemma decodeInt_bytes:
  "decodeInt [a, b, c, d] =
     of_nat (of_char a + 256 * of_char b + 65536 * of_char c + 16777216 * of_char d)"
  by (simp add: decodeInt_def)

lemma decodeInt_encodeInt [simp]: "decodeInt (encodeInt v) = v"
proof -
  have n: "unat v < 4294967296" using unsigned_less [of v] by simp
  have "decodeInt (encodeInt v) =
          of_nat (unat v mod 256 + 256 * (unat v div 256 mod 256)
                  + 65536 * (unat v div 65536 mod 256)
                  + 16777216 * (unat v div 16777216 mod 256))"
    by (simp only: encodeInt_def Let_def decodeInt_bytes of_char_of)
  also have "\<dots> = of_nat (unat v)" by (simp only: byte_decomposition [OF n])
  finally show ?thesis by simp
qed

lemma bytes_at_append_mid: "bytes_at (A @ B @ C) (length A) (length B) = Some B"
  by (simp add: bytes_at_def)

lemma length_concat_encodeInt: "length (concat (map encodeInt rs)) = 4 * length rs"
  by (induction rs) simp_all

lemma unat_of_nat32: "n < 4294967296 \<Longrightarrow> unat (of_nat n :: u32) = n"
  by (simp add: unat_of_nat)

section \<open>BlockBuilder: the bytes that the adds produce\<close>

lemma lcp_same_prefix:
  "longest_common_prefix (p @ a) (p @ b) = p @ longest_common_prefix a b"
  by (induction p) auto

lemma cpl_take:
  assumes "take i a = take i b" "i \<le> length a" "i \<le> length b"
  shows "common_prefix_length a b = i + common_prefix_length (drop i a) (drop i b)"
proof -
  have a: "a = take i a @ drop i a" by simp
  have b: "b = take i a @ drop i b" by (simp add: assms(1))
  have "longest_common_prefix a b
          = take i a @ longest_common_prefix (drop i a) (drop i b)"
    by (subst a, subst b) (rule lcp_same_prefix)
  then show ?thesis using assms by (simp add: common_prefix_length_def)
qed

lemma cpl_le: "common_prefix_length a b \<le> length a" "common_prefix_length a b \<le> length b"
  using longest_common_prefix_prefix1 [of a b] longest_common_prefix_prefix2 [of a b]
  by (auto simp: common_prefix_length_def dest: prefix_length_le)

lemma cpl_take_eq:
  "take (common_prefix_length a b) a = take (common_prefix_length a b) b"
proof -
  obtain r where a: "a = longest_common_prefix a b @ r"
    using longest_common_prefix_prefix1 [of a b] by (auto simp: prefix_def)
  obtain r' where b: "b = longest_common_prefix a b @ r'"
    using longest_common_prefix_prefix2 [of a b] by (auto simp: prefix_def)
  have "take (common_prefix_length a b) a = longest_common_prefix a b"
    by (subst a) (simp add: common_prefix_length_def)
  moreover have "take (common_prefix_length a b) b = longest_common_prefix a b"
    by (subst b) (simp add: common_prefix_length_def)
  ultimately show ?thesis by simp
qed

lemma unat_succ_lt: "(s::u32) < m \<Longrightarrow> unat (s + 1) = unat s + 1"
proof -
  assume "s < m"
  then have "unat s < unat m" by (simp add: word_less_nat_alt)
  moreover have "unat m < 2 ^ 32" using unsigned_less [of m] by simp
  ultimately have "unat s + 1 < 2 ^ 32" by simp
  then show ?thesis by (simp add: unat_word_ariths)
qed

lemma shared_loop_unat:
  "unat m = min (length lk) (length k) \<Longrightarrow> unat s \<le> unat m \<Longrightarrow>
   take (unat s) lk = take (unat s) k \<Longrightarrow>
   unat (shared_loop lk k m s) = common_prefix_length lk k"
proof (induction lk k m s rule: shared_loop.induct)
  case (1 lk k m s)
  show ?case
  proof (cases "s < m \<and> lk ! unat s = k ! unat s")
    case True
    then have lt: "unat s < unat m" by (simp add: word_less_nat_alt)
    have s1: "unat (s + 1) = Suc (unat s)" using True unat_succ_lt [of s m] by simp
    have "take (Suc (unat s)) lk = take (Suc (unat s)) k"
      using lt "1.prems" True by (simp add: take_Suc_conv_app_nth)
    then have "unat (shared_loop lk k m (s + 1)) = common_prefix_length lk k"
      using "1.IH" [OF True "1.prems"(1)] lt s1 by simp
    then show ?thesis using True by (subst shared_loop.simps) simp
  next
    case False
    have res: "shared_loop lk k m s = s"
      using False by (subst shared_loop.simps) auto
    have le: "unat s \<le> length lk" "unat s \<le> length k" using "1.prems" by simp_all
    have "common_prefix_length (drop (unat s) lk) (drop (unat s) k) = 0"
    proof (cases "unat s = unat m")
      case True
      then have "drop (unat s) lk = [] \<or> drop (unat s) k = []"
        using "1.prems"(1) by (auto simp: min_def split: if_splits)
      then show ?thesis by (auto simp: common_prefix_length_def)
    next
      case ne: False
      then have lt: "unat s < unat m" using "1.prems"(2) by simp
      then have "s < m" by (simp add: word_less_nat_alt)
      with False have neq: "lk ! unat s \<noteq> k ! unat s" by simp
      have "unat s < length lk" "unat s < length k" using lt "1.prems"(1) by simp_all
      then have "drop (unat s) lk = lk ! unat s # drop (Suc (unat s)) lk"
        "drop (unat s) k = k ! unat s # drop (Suc (unat s)) k"
        by (simp_all add: Cons_nth_drop_Suc)
      then show ?thesis using neq by (simp add: common_prefix_length_def)
    qed
    then show ?thesis using cpl_take [OF "1.prems"(3) le] res by simp
  qed
qed

lemma shared_loop_correct:
  assumes "length k < 4294967296"
  shows "shared_loop lk k (of_nat (min (length lk) (length k))) 0
           = of_nat (common_prefix_length lk k)"
proof -
  have "min (length lk) (length k) < 4294967296" using assms by simp
  then have "unat (of_nat (min (length lk) (length k)) :: u32) = min (length lk) (length k)"
    by (rule unat_of_nat32)
  then have "unat (shared_loop lk k (of_nat (min (length lk) (length k))) 0)
               = common_prefix_length lk k"
    by (intro shared_loop_unat) simp_all
  then have "of_nat (unat (shared_loop lk k (of_nat (min (length lk) (length k))) 0))
               = (of_nat (common_prefix_length lk k) :: u32)" by simp
  then show ?thesis by simp
qed


lemma add_step:
  assumes nf: "\<not> finished b"
    and ord: "buffer b = [] \<or> bb_comparator b k (last_key b) > 0"
    and len: "length k < 4294967296"
    and sh: "sh = (if counter b < block_restart_interval b
                   then common_prefix_length (last_key b) k else 0)"
  shows "\<exists>b'. add b k v = Some b' \<and> buffer b' = buffer b @ entry_bytes sh k v
           \<and> last_key b' = k
           \<and> counter b' = (if counter b < block_restart_interval b then counter b else 0) + 1
           \<and> bb_restarts b' = (if counter b < block_restart_interval b then bb_restarts b
                               else bb_restarts b @ [of_nat (length (buffer b))])
           \<and> finished b' = False \<and> bb_comparator b' = bb_comparator b
           \<and> block_restart_interval b' = block_restart_interval b"
proof -
  define shared :: u32 where
    "shared = (if counter b < block_restart_interval b
               then shared_loop (last_key b) k (of_nat (min (length (last_key b)) (length k))) 0
               else 0)"
  have shared: "shared = of_nat sh"
    by (simp add: shared_def sh shared_loop_correct [OF len])
  have sh_le: "sh \<le> length k" "sh \<le> length (last_key b)"
    using cpl_le [of "last_key b" k] by (simp_all add: sh)
  have u1: "unat (of_nat sh :: u32) = sh" using sh_le len by (simp add: unat_of_nat32)
  have u2: "unat (of_nat (length k - sh) :: u32) = length k - sh"
    using len by (simp add: unat_of_nat32)
  have tk: "take sh (last_key b) = take sh k"
    using cpl_take_eq [of "last_key b" k] by (simp add: sh)
  have lk: "resize (last_key b) sh @ drop sh k = k"
    using sh_le by (simp add: resize_def tk)
  show ?thesis
    using nf ord lk
    by (simp add: add_def Let_def shared_def [symmetric] u1 u2 entry_bytes_def shared)
qed


lemma add_all_append:
  "add_all b (xs @ ys) = (case add_all b xs of None \<Rightarrow> None | Some b' \<Rightarrow> add_all b' ys)"
  by (induction xs arbitrary: b) (auto split: option.splits)

lemma pred_mod:
  assumes "1 \<le> (n::nat)" "1 \<le> (N::nat)"
  shows "(n - 1) mod N + 1 = (if n mod N = 0 then N else n mod N)"
proof -
  obtain m where n: "n = Suc m" using assms(1) by (cases n) auto
  show ?thesis by (simp add: n mod_Suc)
qed

lemma expected_entry_append:
  "i < length xs \<Longrightarrow> expected_entry N (xs @ ys) i = expected_entry N xs i"
  by (cases i) (simp_all add: expected_entry_def expected_shared_def nth_append)

lemma expected_buffer_append:
  "n \<le> length xs \<Longrightarrow> expected_buffer N (xs @ ys) n = expected_buffer N xs n"
proof -
  assume "n \<le> length xs"
  then have "map (expected_entry N (xs @ ys)) [0..<n] = map (expected_entry N xs) [0..<n]"
    by (intro map_cong) (auto simp: expected_entry_append)
  then show ?thesis unfolding expected_buffer_def by (rule arg_cong)
qed

lemma expected_buffer_Suc:
  "expected_buffer N kvs (Suc n) = expected_buffer N kvs n @ expected_entry N kvs n"
  by (simp add: expected_buffer_def)

lemma entry_offset_append:
  "n \<le> length xs \<Longrightarrow> entry_offset N (xs @ ys) n = entry_offset N xs n"
  by (simp add: entry_offset_def expected_buffer_append)

lemma expected_restarts_snoc:
  "expected_restarts N (xs @ [x]) =
     (if xs \<noteq> [] \<and> length xs mod N = 0
      then expected_restarts N xs @ [entry_offset N xs (length xs)]
      else expected_restarts N xs)"
proof (cases "xs = []")
  case True
  then show ?thesis by (simp add: expected_restarts_def)
next
  case False
  then have n: "1 \<le> length xs" by (cases xs) auto
  have upt: "[Suc 0..<Suc (length xs)] = [Suc 0..<length xs] @ [length xs]"
    using n by simp
  have m: "map (entry_offset N (xs @ [x])) (filter (\<lambda>i. i mod N = 0) [Suc 0..<length xs])
         = map (entry_offset N xs) (filter (\<lambda>i. i mod N = 0) [Suc 0..<length xs])"
    by (rule map_cong) (auto simp: entry_offset_append)
  show ?thesis
    using False by (simp add: expected_restarts_def upt m entry_offset_append del: upt_Suc)
qed

lemma cpl_Nil [simp]: "common_prefix_length [] k = 0"
  by (simp add: common_prefix_length_def)

lemma add_all_fresh:
  assumes N: "1 \<le> N"
  shows "strictly_increasing cmp (map fst kvs) \<Longrightarrow> keys_fit kvs \<Longrightarrow>
    \<exists>b. add_all (BlockBuilder_new cmp N) kvs = Some b
        \<and> buffer b = expected_buffer N kvs (length kvs)
        \<and> bb_restarts b = map of_nat (expected_restarts N kvs)
        \<and> counter b = (if kvs = [] then 0 else (length kvs - 1) mod N + 1)
        \<and> last_key b = (if kvs = [] then [] else fst (last kvs))
        \<and> \<not> finished b \<and> bb_comparator b = cmp \<and> block_restart_interval b = N"
proof (induction kvs rule: rev_induct)
  case Nil
  show ?case
    by (simp add: BlockBuilder_new_def expected_buffer_def expected_restarts_def)
next
  case (snoc x xs)
  let ?n = "length xs"
  have inc: "strictly_increasing cmp (map fst xs)"
    and gt: "\<forall>y \<in> set xs. cmp (fst x) (fst y) > 0"
    using snoc.prems(1) by (auto simp: strictly_increasing_def sorted_wrt_append)
  have fit: "keys_fit xs" and len: "length (fst x) < 4294967296"
    using snoc.prems(2) by (auto simp: keys_fit_def)
  from snoc.IH [OF inc fit] obtain b where b:
    "add_all (BlockBuilder_new cmp N) xs = Some b"
    "buffer b = expected_buffer N xs ?n"
    "bb_restarts b = map of_nat (expected_restarts N xs)"
    "counter b = (if xs = [] then 0 else (?n - 1) mod N + 1)"
    "last_key b = (if xs = [] then [] else fst (last xs))"
    "\<not> finished b" "bb_comparator b = cmp" "block_restart_interval b = N"
    by blast
  define sh where "sh = (if counter b < block_restart_interval b
                   then common_prefix_length (last_key b) (fst x) else 0)"
  have ord: "buffer b = [] \<or> bb_comparator b (fst x) (last_key b) > 0"
  proof (cases "xs = []")
    case True then show ?thesis by (simp add: b expected_buffer_def)
  next
    case False
    then have "last xs \<in> set xs" by simp
    with gt show ?thesis using False by (simp add: b)
  qed
  from add_step [OF b(6) ord len sh_def, of "snd x"] obtain b' where b':
    "add b (fst x) (snd x) = Some b'"
    "buffer b' = buffer b @ entry_bytes sh (fst x) (snd x)"
    "last_key b' = fst x"
    "counter b' = (if counter b < block_restart_interval b then counter b else 0) + 1"
    "bb_restarts b' = (if counter b < block_restart_interval b then bb_restarts b
                       else bb_restarts b @ [of_nat (length (buffer b))])"
    "finished b' = False" "bb_comparator b' = bb_comparator b"
    "block_restart_interval b' = block_restart_interval b"
    by blast
  have cnt: "counter b < block_restart_interval b \<longleftrightarrow> (xs = [] \<or> ?n mod N \<noteq> 0)"
  proof (cases "xs = []")
    case True then show ?thesis using N by (simp add: b)
  next
    case False
    then have "1 \<le> ?n" by (cases xs) auto
    from pred_mod [OF this N] show ?thesis using False N by (auto simp: b)
  qed
  have she: "sh = expected_shared N (xs @ [x]) ?n"
  proof (cases "xs = []")
    case True then show ?thesis by (simp add: sh_def expected_shared_def b)
  next
    case False
    then have "1 \<le> ?n" by (cases xs) auto
    then have "(xs @ [x]) ! (?n - 1) = last xs"
      using False by (simp add: nth_append last_conv_nth)
    then show ?thesis using False cnt
      by (simp add: sh_def expected_shared_def b)
  qed
  have buf: "buffer b' = expected_buffer N (xs @ [x]) (Suc ?n)"
    by (simp add: b' b expected_buffer_Suc expected_buffer_append expected_entry_def she [symmetric])
  have rs: "bb_restarts b' = map of_nat (expected_restarts N (xs @ [x]))"
    using cnt by (auto simp: b' b expected_restarts_snoc entry_offset_def)
  have c: "counter b' = ?n mod N + 1"
  proof (cases "xs = []")
    case True then show ?thesis using cnt by (simp add: b' b)
  next
    case False
    then have "1 \<le> ?n" by (cases xs) auto
    from pred_mod [OF this N] show ?thesis using False cnt N by (auto simp: b' b)
  qed
  have "add_all (BlockBuilder_new cmp N) (xs @ [x]) = Some b'"
    by (simp add: add_all_append b b')
  then show ?case
    using buf rs c by (simp add: b' b)
qed

section \<open>BlockBuilder: size estimate and reset\<close>

text \<open>
  C9. \<open>sizeEstimate()\<close> is the length of the data buffer plus four bytes for each
  recorded restart offset plus four bytes for the restart count, and that is exactly
  the length of the byte string that \<open>finish()\<close> returns from the same state.
\<close>

theorem sizeEstimate_exact:
  "sizeEstimate b = length (buffer b) + (4 * length (bb_restarts b) + 4)
   \<and> length (fst (finish b)) = sizeEstimate b"
  by (simp add: finish_def sizeEstimate_def Let_def length_concat_encodeInt)

lemma reset_eq_new: "reset b = BlockBuilder_new (bb_comparator b) (block_restart_interval b)"
  by (simp add: reset_def BlockBuilder_new_def)

lemma add_all_succeeds:
  "\<not> finished b \<Longrightarrow> strictly_increasing (bb_comparator b) (map fst kvs) \<Longrightarrow> keys_fit kvs \<Longrightarrow>
   buffer b = [] \<or> (\<forall>kv \<in> set kvs. bb_comparator b (fst kv) (last_key b) > 0) \<Longrightarrow>
   \<exists>b'. add_all b kvs = Some b'"
proof (induction kvs arbitrary: b)
  case Nil
  show ?case by simp
next
  case (Cons kv kvs)
  have ord: "buffer b = [] \<or> bb_comparator b (fst kv) (last_key b) > 0"
    using Cons.prems(4) by auto
  have len: "length (fst kv) < 4294967296" using Cons.prems(3) by (simp add: keys_fit_def)
  from add_step [OF Cons.prems(1) ord len refl, of "snd kv"] obtain b' where b':
    "add b (fst kv) (snd kv) = Some b'" "last_key b' = fst kv" "finished b' = False"
    "bb_comparator b' = bb_comparator b"
    by blast
  have "\<exists>b''. add_all b' kvs = Some b''"
  proof (rule Cons.IH)
    show "\<not> finished b'" by (simp add: b')
    show "strictly_increasing (bb_comparator b') (map fst kvs)"
      using Cons.prems(2) by (simp add: strictly_increasing_def b')
    show "keys_fit kvs" using Cons.prems(3) by (simp add: keys_fit_def)
    show "buffer b' = [] \<or> (\<forall>kv \<in> set kvs. bb_comparator b' (fst kv) (last_key b') > 0)"
      using Cons.prems(2) by (simp add: strictly_increasing_def b')
  qed
  then show ?case by (simp add: b')
qed

lemma example_increasing: "strictly_increasing bytewise_compare (map fst example_kvs)"
  by (simp add: strictly_increasing_def example_kvs_def)

lemma example_keys_fit: "keys_fit example_kvs"
  by (simp add: keys_fit_def example_kvs_def)

text \<open>
  C8. After \<open>reset()\<close> a builder in any state is the freshly constructed builder with
  the same options, so the same adds followed by \<open>finish()\<close> return the same bytes;
  and for strictly increasing keys (each shorter than \<open>2^32\<close> bytes) the adds pass their
  assertions, so that bytes are returned.
\<close>

theorem reset_like_fresh:
  "build_block (reset b) kvs
     = build_block (BlockBuilder_new (bb_comparator b) (block_restart_interval b)) kvs
   \<and> (strictly_increasing (bb_comparator b) (map fst kvs) \<and> keys_fit kvs
        \<longrightarrow> (\<exists>bytes. build_block (reset b) kvs = Some bytes))"
proof -
  let ?f = "BlockBuilder_new (bb_comparator b) (block_restart_interval b)"
  have "strictly_increasing (bb_comparator b) (map fst kvs) \<Longrightarrow> keys_fit kvs \<Longrightarrow>
        \<exists>b'. add_all ?f kvs = Some b'"
    by (rule add_all_succeeds) (simp_all add: BlockBuilder_new_def)
  then show ?thesis by (auto simp: reset_eq_new build_block_def)
qed

theorem reset_like_fresh_witness:
  "strictly_increasing bytewise_compare (map fst example_kvs) \<and> keys_fit example_kvs
   \<and> (\<exists>bytes. build_block (reset used_builder) example_kvs = Some bytes)
   \<and> build_block (reset used_builder) example_kvs
       = build_block (BlockBuilder_new bytewise_compare 2) example_kvs"
proof -
  have opts: "bb_comparator used_builder = bytewise_compare"
    "block_restart_interval used_builder = 2"
    by (simp_all add: used_builder_def)
  from reset_like_fresh [of used_builder example_kvs] show ?thesis
    unfolding opts using example_increasing example_keys_fit by blast
qed

section \<open>BlockBuilder: the block of three entries\<close>

lemma upt_0_3: "[0..<3] = [0, 1, 2]"
  by (simp add: numeral_3_eq_3)

lemma example_buffer:
  "expected_buffer 2 example_kvs 3 =
     [CHR 0x00, CHR 0x00, CHR 0x00, CHR 0x00, CHR 0x05, CHR 0x00, CHR 0x00, CHR 0x00,
      CHR 0x01, CHR 0x00, CHR 0x00, CHR 0x00] @ ''apple1'' @
     [CHR 0x04, CHR 0x00, CHR 0x00, CHR 0x00, CHR 0x07, CHR 0x00, CHR 0x00, CHR 0x00,
      CHR 0x01, CHR 0x00, CHR 0x00, CHR 0x00] @ ''ication2'' @
     [CHR 0x00, CHR 0x00, CHR 0x00, CHR 0x00, CHR 0x06, CHR 0x00, CHR 0x00, CHR 0x00,
      CHR 0x01, CHR 0x00, CHR 0x00, CHR 0x00] @ ''banana3''"
  by (simp add: example_kvs_def expected_buffer_def expected_entry_def expected_shared_def
      entry_bytes_def common_prefix_length_def upt_0_3 encodeInt_def char_of_def
      bit_Suc_0_iff del: upt.simps)

lemma example_restarts:
  "expected_restarts 2 example_kvs = [0, 38]"
  "entry_offset 2 example_kvs 2 = 38"
  by (simp_all add: example_kvs_def expected_restarts_def entry_offset_def expected_buffer_def
      expected_entry_def expected_shared_def entry_bytes_def common_prefix_length_def
      numeral_3_eq_3 numeral_2_eq_2)

lemma example_builder:
  "\<exists>b. add_all (BlockBuilder_new bytewise_compare 2) example_kvs = Some b
       \<and> buffer b = expected_buffer 2 example_kvs 3 \<and> bb_restarts b = [0, 38]"
proof -
  have l: "length example_kvs = 3" by (simp add: example_kvs_def)
  have "1 \<le> (2::nat)" by simp
  from add_all_fresh [OF this example_increasing example_keys_fit] obtain b where
    "add_all (BlockBuilder_new bytewise_compare 2) example_kvs = Some b"
    "buffer b = expected_buffer 2 example_kvs (length example_kvs)"
    "bb_restarts b = map of_nat (expected_restarts 2 example_kvs)"
    by blast
  then show ?thesis by (simp add: l example_restarts)
qed

lemma example_fields:
  "encoded_fields bytewise_compare 2 example_kvs = Some [(0, 5), (4, 7), (0, 6)]"
proof -
  from example_builder obtain b where
    b: "add_all (BlockBuilder_new bytewise_compare 2) example_kvs = Some b"
       "buffer b = expected_buffer 2 example_kvs 3"
    by blast
  have "decode_fields 3 (expected_buffer 2 example_kvs 3) 0 = Some [(0, 5), (4, 7), (0, 6)]"
    unfolding example_buffer
    by (simp add: numeral_3_eq_3 decodeEntry_def decodeIntAt_def bytes_at_def decodeInt_def)
  moreover have "length example_kvs = 3" by (simp add: example_kvs_def)
  ultimately show ?thesis by (simp add: encoded_fields_def b)
qed

section \<open>Forward iteration over a built block\<close>

lemma decodeIntAt_append: "decodeIntAt (A @ encodeInt w @ C) (length A) = Some w"
  using bytes_at_append_mid [of A "encodeInt w" C] by (simp add: decodeIntAt_def)

lemma entry_bytes_length:
  "length (entry_bytes sh k v) = 12 + (length k - sh) + length v"
  by (simp add: entry_bytes_def)

lemma decodeEntry_entry:
  assumes "length A + 3 \<le> limit"
  shows "decodeEntry (A @ entry_bytes sh k v @ C) (length A) limit
           = Some (Entry (length A + 12) (of_nat sh) (of_nat (length k - sh)) (of_nat (length v)))"
proof -
  let ?D = "A @ entry_bytes sh k v @ C"
  let ?s = "encodeInt (of_nat sh)" and ?n = "encodeInt (of_nat (length k - sh))"
  let ?v = "encodeInt (of_nat (length v))"
  have D: "?D = A @ ?s @ (?n @ ?v @ drop sh k @ v @ C)"
    "?D = (A @ ?s) @ ?n @ (?v @ drop sh k @ v @ C)"
    "?D = (A @ ?s @ ?n) @ ?v @ (drop sh k @ v @ C)"
    by (simp_all add: entry_bytes_def)
  have a: "decodeIntAt ?D (length A) = Some (of_nat sh)"
    by (subst D(1)) (rule decodeIntAt_append)
  have "decodeIntAt ?D (length (A @ ?s)) = Some (of_nat (length k - sh))"
    by (subst D(2)) (rule decodeIntAt_append)
  then have b: "decodeIntAt ?D (length A + 4) = Some (of_nat (length k - sh))" by simp
  have "decodeIntAt ?D (length (A @ ?s @ ?n)) = Some (of_nat (length v))"
    by (subst D(3)) (rule decodeIntAt_append)
  then have c: "decodeIntAt ?D (length A + 8) = Some (of_nat (length v))" by simp
  show ?thesis using assms by (simp add: decodeEntry_def a b c)
qed

lemma entry_key_bytes:
  assumes "sh \<le> length k"
  shows "bytes_at (A @ entry_bytes sh k v @ C) (length A + 12) (length k - sh) = Some (drop sh k)"
proof -
  let ?h = "encodeInt (of_nat sh) @ encodeInt (of_nat (length k - sh)) @ encodeInt (of_nat (length v))"
  have "A @ entry_bytes sh k v @ C = (A @ ?h) @ drop sh k @ (v @ C)"
    by (simp add: entry_bytes_def)
  moreover have "bytes_at ((A @ ?h) @ drop sh k @ (v @ C)) (length (A @ ?h)) (length (drop sh k))
                   = Some (drop sh k)"
    by (rule bytes_at_append_mid)
  ultimately show ?thesis by simp
qed

lemma entry_val_bytes:
  assumes "sh \<le> length k"
  shows "bytes_at (A @ entry_bytes sh k v @ C) (length A + 12 + (length k - sh)) (length v) = Some v"
proof -
  let ?h = "encodeInt (of_nat sh) @ encodeInt (of_nat (length k - sh)) @ encodeInt (of_nat (length v))
              @ drop sh k"
  have "A @ entry_bytes sh k v @ C = (A @ ?h) @ v @ C"
    by (simp add: entry_bytes_def)
  moreover have "bytes_at ((A @ ?h) @ v @ C) (length (A @ ?h)) (length v) = Some v"
    by (rule bytes_at_append_mid)
  ultimately show ?thesis by (simp add: add.assoc)
qed

lemma getRestartOffset_in_range:
  assumes "4 * unat (num_restarts it) \<le> length (data it)" "idx < num_restarts it"
  shows "\<exists>off. getRestartOffset it idx = Some off"
proof -
  have "unat idx < unat (num_restarts it)" using assms(2) by (simp add: word_less_nat_alt)
  then have "unat idx * 4 + 4 \<le> length (data it)" using assms(1) by simp
  then show ?thesis using assms(2) by (simp add: getRestartOffset_def decodeIntAt_def bytes_at_def)
qed

lemma restart_loop_ok:
  "4 * unat (num_restarts it) \<le> length (data it) \<Longrightarrow> current_restart it < num_restarts it \<Longrightarrow>
   \<exists>cr. restart_loop it = Some (it\<lparr>current_restart := cr\<rparr>) \<and> cr < num_restarts it"
proof (induction it rule: restart_loop.induct)
  case (1 it)
  from getRestartOffset_in_range [OF "1.prems"] obtain off where
    off: "getRestartOffset it (current_restart it) = Some off" by blast
  show ?case
  proof (cases "current_restart it + 1 < num_restarts it \<and> off < current it")
    case True
    let ?it = "it\<lparr>current_restart := current_restart it + 1\<rparr>"
    have "\<exists>cr. restart_loop ?it = Some (?it\<lparr>current_restart := cr\<rparr>) \<and> cr < num_restarts ?it"
      using True "1.prems" by (intro "1.IH" [OF _ off]) simp_all
    then show ?thesis using True off by (subst restart_loop.simps) simp
  next
    case False
    then have "restart_loop it = Some it" using off by (subst restart_loop.simps) auto
    then have "restart_loop it = Some (it\<lparr>current_restart := current_restart it\<rparr>)" by simp
    then show ?thesis using "1.prems"(2) by blast
  qed
qed

lemma expected_buffer_split:
  "i < n \<Longrightarrow> \<exists>R. expected_buffer N kvs n = expected_buffer N kvs i @ expected_entry N kvs i @ R"
proof (induction n)
  case 0
  then show ?case by simp
next
  case (Suc n)
  show ?case
  proof (cases "i = n")
    case True
    then show ?thesis by (simp add: expected_buffer_Suc)
  next
    case False
    then have "i < n" using Suc.prems by simp
    from Suc.IH [OF this] obtain R where
      "expected_buffer N kvs n = expected_buffer N kvs i @ expected_entry N kvs i @ R" by blast
    then have "expected_buffer N kvs (Suc n)
                 = expected_buffer N kvs i @ expected_entry N kvs i @ (R @ expected_entry N kvs n)"
      by (simp add: expected_buffer_Suc)
    then show ?thesis by blast
  qed
qed

lemma parseNextKeyVal_entry:
  assumes neo: "nextEntryOffset it = Some off"
    and lt: "unat off < unat (restarts it)"
    and dec: "decodeEntry (data it) (unat off) (unat (restarts it)) = Some (Entry q sh ns vs)"
    and sh: "unat sh \<le> length (key it)"
    and ks: "bytes_at (data it) q (unat ns) = Some ks"
    and tab: "4 * unat (num_restarts it) \<le> length (data it)"
    and cr: "current_restart it < num_restarts it"
  shows "\<exists>c. parseNextKeyVal it
               = Some (True, it\<lparr>current := off, key := resize (key it) (unat sh) @ ks,
                                  val := Some (q + unat ns, unat vs), current_restart := c\<rparr>)
             \<and> c < num_restarts it"
proof -
  let ?it = "it\<lparr>current := off, key := resize (key it) (unat sh) @ ks,
                 val := Some (q + unat ns, unat vs)\<rparr>"
  have "\<exists>c. restart_loop ?it = Some (?it\<lparr>current_restart := c\<rparr>) \<and> c < num_restarts ?it"
    by (rule restart_loop_ok) (simp_all add: tab cr)
  then obtain c where c: "restart_loop ?it = Some (?it\<lparr>current_restart := c\<rparr>)"
    "c < num_restarts it" by auto
  have "parseNextKeyVal it = Some (True, ?it\<lparr>current_restart := c\<rparr>)"
    using lt sh c(1) by (simp add: parseNextKeyVal_def neo dec ks Let_def)
  then show ?thesis using c(2) by auto
qed

lemma parseNextKeyVal_end:
  assumes "nextEntryOffset it = Some off" "unat (restarts it) \<le> unat off"
  shows "parseNextKeyVal it
           = Some (False, it\<lparr>current := restarts it, current_restart := num_restarts it\<rparr>)"
  using assms by (simp add: parseNextKeyVal_def Let_def)

lemma expected_buffer_le:
  "m \<le> length kvs \<Longrightarrow>
   length (expected_buffer N kvs m)
     \<le> sum_list (map (\<lambda>kv. 12 + length (fst kv) + length (snd kv)) (take m kvs))"
proof (induction m)
  case 0
  show ?case by (simp add: expected_buffer_def)
next
  case (Suc m)
  then have m: "m < length kvs" by simp
  have "length (expected_entry N kvs m) \<le> 12 + length (fst (kvs ! m)) + length (snd (kvs ! m))"
    by (simp add: expected_entry_def entry_bytes_length)
  then show ?case using Suc.IH m
    by (simp add: expected_buffer_Suc take_Suc_conv_app_nth)
qed

lemma block_bound_split:
  "block_bound kvs
     = sum_list (map (\<lambda>kv. 12 + length (fst kv) + length (snd kv)) kvs) + 4 * length kvs + 8"
  by (induction kvs) (simp_all add: block_bound_def)

lemma block_fits_elem:
  "block_fits kvs \<Longrightarrow> kv \<in> set kvs \<Longrightarrow>
   length (fst kv) < 4294967296 \<and> length (snd kv) < 4294967296"
proof (induction kvs)
  case Nil
  then show ?case by simp
next
  case (Cons a kvs)
  have "block_bound kvs \<le> block_bound (a # kvs)" by (simp add: block_bound_def)
  then have "block_fits kvs" using Cons.prems(1) by (simp add: block_fits_def)
  then show ?case using Cons by (auto simp: block_fits_def block_bound_def)
qed

lemma block_fits_keys: "block_fits kvs \<Longrightarrow> keys_fit kvs"
  by (auto simp: keys_fit_def dest: block_fits_elem)

lemma block_fits_buffer:
  assumes "block_fits kvs"
  shows "length (expected_buffer N kvs (length kvs)) + 4 * length kvs + 8 < 4294967296"
  using expected_buffer_le [of "length kvs" kvs N] assms
  by (simp add: block_fits_def block_bound_split)

lemma expected_shared_facts:
  assumes "i < length kvs"
  shows "expected_shared N kvs i \<le> length (fst (kvs ! i))"
    and "0 < i \<Longrightarrow> expected_shared N kvs i \<le> length (fst (kvs ! (i - 1)))"
    and "0 < i \<Longrightarrow> take (expected_shared N kvs i) (fst (kvs ! (i - 1)))
                      = take (expected_shared N kvs i) (fst (kvs ! i))"
    and "expected_shared N kvs 0 = 0"
  using cpl_le [of "fst (kvs ! (i - 1))" "fst (kvs ! i)"]
    cpl_take_eq [of "fst (kvs ! (i - 1))" "fst (kvs ! i)"]
  by (simp_all add: expected_shared_def)

lemma entry_offset_Suc:
  "entry_offset N kvs (Suc i) = entry_offset N kvs i + length (expected_entry N kvs i)"
  by (simp add: entry_offset_def expected_buffer_Suc)

lemma entry_offset_mono:
  "i < n \<Longrightarrow> entry_offset N kvs (Suc i) \<le> entry_offset N kvs n"
proof -
  assume "i < n"
  from expected_buffer_split [OF this] obtain R where
    "expected_buffer N kvs n = expected_buffer N kvs i @ expected_entry N kvs i @ R" by blast
  then show ?thesis by (simp add: entry_offset_def expected_buffer_Suc)
qed

lemma parse_step:
  assumes fits: "block_fits kvs" and at: "at_entry N kvs T i it" and i: "i < length kvs"
  shows "\<exists>it'. parseNextKeyVal it = Some (True, it') \<and> at_entry N kvs T (Suc i) it'
           \<and> key it' = fst (kvs ! i) \<and> val_bytes it' = Some (snd (kvs ! i))
           \<and> valid it' \<and> status it' = status it"
proof -
  let ?n = "length kvs"
  let ?p = "entry_offset N kvs i" and ?lim = "entry_offset N kvs ?n"
  let ?sh = "expected_shared N kvs i" and ?k = "fst (kvs ! i)" and ?v = "snd (kvs ! i)"
  from at obtain off len where
    D: "data it = expected_buffer N kvs ?n @ T"
    and r: "restarts it = of_nat ?lim"
    and tab: "4 * unat (num_restarts it) \<le> length (data it)"
    and cr: "current_restart it < num_restarts it"
    and v: "val it = Some (off, len)" "off + len = ?p"
    and k: "0 < i \<longrightarrow> key it = fst (kvs ! (i - 1))"
    by (auto simp: at_entry_def)
  have kv: "kvs ! i \<in> set kvs" using i by simp
  have klen: "length ?k < 4294967296" and vlen: "length ?v < 4294967296"
    using block_fits_elem [OF fits kv] by simp_all
  have lim: "?lim < 4294967296"
    using block_fits_buffer [OF fits, of N] by (simp add: entry_offset_def)
  have next_le: "entry_offset N kvs (Suc i) \<le> ?lim" by (rule entry_offset_mono [OF i])
  have elen: "length (expected_entry N kvs i) = 12 + (length ?k - ?sh) + length ?v"
    by (simp add: expected_entry_def entry_bytes_length)
  have p_lim: "?p + 12 \<le> ?lim" using next_le by (simp add: entry_offset_Suc elen)
  have up: "unat (of_nat ?p :: u32) = ?p" using p_lim lim by (simp add: unat_of_nat32)
  have ulim: "unat (restarts it) = ?lim" using lim by (simp add: r unat_of_nat32)
  have neo: "nextEntryOffset it = Some (of_nat ?p)"
    by (simp add: nextEntryOffset_def v(1) v(2) [symmetric])
  from expected_buffer_split [OF i] obtain R where
    R: "expected_buffer N kvs ?n = expected_buffer N kvs i @ expected_entry N kvs i @ R"
    by blast
  let ?A = "expected_buffer N kvs i"
  have D': "data it = ?A @ entry_bytes ?sh ?k ?v @ (R @ T)"
    by (simp add: D R expected_entry_def)
  have lA: "length ?A = ?p" by (simp add: entry_offset_def)
  have sh_k: "?sh \<le> length ?k" using expected_shared_facts(1) [OF i] .
  have "decodeEntry (?A @ entry_bytes ?sh ?k ?v @ (R @ T)) (length ?A) ?lim
          = Some (Entry (length ?A + 12) (of_nat ?sh) (of_nat (length ?k - ?sh))
                    (of_nat (length ?v)))"
    by (rule decodeEntry_entry) (use p_lim lA in simp)
  then have dec: "decodeEntry (data it) (unat (of_nat ?p :: u32)) (unat (restarts it))
               = Some (Entry (?p + 12) (of_nat ?sh) (of_nat (length ?k - ?sh)) (of_nat (length ?v)))"
    by (simp only: up ulim D' lA)
  have ush: "unat (of_nat ?sh :: u32) = ?sh" using sh_k klen by (simp add: unat_of_nat32)
  have uns: "unat (of_nat (length ?k - ?sh) :: u32) = length ?k - ?sh"
    using klen by (simp add: unat_of_nat32)
  have uvs: "unat (of_nat (length ?v) :: u32) = length ?v"
    using vlen by (simp add: unat_of_nat32)
  have sh_key: "unat (of_nat ?sh :: u32) \<le> length (key it)"
  proof (cases "i = 0")
    case True
    then show ?thesis using expected_shared_facts(4) [OF i, of N] by simp
  next
    case False
    then show ?thesis using k expected_shared_facts(2) [OF i, of N] by (simp add: ush)
  qed
  have ks: "bytes_at (data it) (?p + 12) (unat (of_nat (length ?k - ?sh) :: u32)) = Some (drop ?sh ?k)"
    using entry_key_bytes [OF sh_k, of ?A ?v "R @ T"] by (simp only: uns D' lA)
  have newkey: "resize (key it) (unat (of_nat ?sh :: u32)) @ drop ?sh ?k = ?k"
  proof (cases "i = 0")
    case True
    then show ?thesis using expected_shared_facts(4) [OF i, of N] by (simp add: resize_def)
  next
    case False
    then have "take ?sh (key it) = take ?sh ?k" "?sh \<le> length (key it)"
      using k expected_shared_facts(2,3) [OF i, of N] by simp_all
    then show ?thesis by (simp add: resize_def ush)
  qed
  have lt: "unat (of_nat ?p :: u32) < unat (restarts it)"
    using p_lim by (simp add: up ulim)
  from parseNextKeyVal_entry [OF neo lt dec sh_key ks tab cr] obtain c where
    c: "parseNextKeyVal it
          = Some (True, it\<lparr>current := of_nat ?p,
                key := resize (key it) (unat (of_nat ?sh :: u32)) @ drop ?sh ?k,
                val := Some (?p + 12 + unat (of_nat (length ?k - ?sh) :: u32),
                             unat (of_nat (length ?v) :: u32)),
                current_restart := c\<rparr>)"
      "c < num_restarts it"
    by blast
  let ?it' = "it\<lparr>current := of_nat ?p, key := ?k,
                 val := Some (?p + 12 + (length ?k - ?sh), length ?v), current_restart := c\<rparr>"
  have p': "parseNextKeyVal it = Some (True, ?it')"
    using c(1) by (simp add: newkey uns uvs)
  have off': "?p + 12 + (length ?k - ?sh) + length ?v = entry_offset N kvs (Suc i)"
    by (simp add: entry_offset_Suc elen)
  have at': "at_entry N kvs T (Suc i) ?it'"
    using D r tab c(2) off' by (simp add: at_entry_def)
  have vb: "val_bytes ?it' = Some ?v"
    using entry_val_bytes [OF sh_k, of ?A ?v "R @ T"]
    by (simp add: val_bytes_def D' lA)
  have "current ?it' < restarts ?it'"
    using lt by (simp add: word_less_nat_alt)
  then have "valid ?it'" by (simp add: valid_def)
  with p' at' vb show ?thesis by (intro exI [of _ ?it']) simp
qed

lemma parse_end:
  assumes fits: "block_fits kvs" and at: "at_entry N kvs T (length kvs) it"
  shows "\<exists>it'. parseNextKeyVal it = Some (False, it') \<and> \<not> valid it' \<and> status it' = status it"
proof -
  let ?lim = "entry_offset N kvs (length kvs)"
  from at obtain off len where
    r: "restarts it = of_nat ?lim" and v: "val it = Some (off, len)" "off + len = ?lim"
    by (auto simp: at_entry_def)
  have neo: "nextEntryOffset it = Some (of_nat ?lim)"
    by (simp add: nextEntryOffset_def v(1) v(2) [symmetric])
  have "parseNextKeyVal it
          = Some (False, it\<lparr>current := restarts it, current_restart := num_restarts it\<rparr>)"
    by (rule parseNextKeyVal_end [OF neo]) (simp add: r)
  then show ?thesis by (simp add: valid_def)
qed

lemma collect_from:
  assumes fits: "block_fits kvs"
  shows "at_entry N kvs T i it \<Longrightarrow> i \<le> length kvs \<Longrightarrow>
    \<exists>ok it' e. parseNextKeyVal it = Some (ok, it')
       \<and> collect_next (length kvs - i) it' = Some (drop i kvs, e)
       \<and> \<not> valid e \<and> status e = status it"
proof (induction "length kvs - i" arbitrary: i it)
  case 0
  then have i: "i = length kvs" by simp
  from parse_end [OF fits] "0.prems"(1) obtain it' where
    "parseNextKeyVal it = Some (False, it')" "\<not> valid it'" "status it' = status it"
    unfolding i by blast
  then show ?case unfolding i by (intro exI [of _ False] exI [of _ it']) simp
next
  case (Suc m)
  then have i: "i < length kvs" and m: "m = length kvs - Suc i" by simp_all
  from parse_step [OF fits Suc.prems(1) i] obtain it' where it':
    "parseNextKeyVal it = Some (True, it')" "at_entry N kvs T (Suc i) it'"
    "key it' = fst (kvs ! i)" "val_bytes it' = Some (snd (kvs ! i))"
    "valid it'" "status it' = status it"
    by blast
  from Suc.hyps(1) [OF m it'(2)] i obtain ok it'' e where e:
    "parseNextKeyVal it' = Some (ok, it'')"
    "collect_next (length kvs - Suc i) it'' = Some (drop (Suc i) kvs, e)"
    "\<not> valid e" "status e = status it'"
    by auto
  have "collect_next (Suc m) it' = Some (kvs ! i # drop (Suc i) kvs, e)"
    using it'(3,4,5) e(1,2) by (simp add: next_entry_def m)
  then have "collect_next (length kvs - i) it' = Some (drop i kvs, e)"
    using i Suc.hyps(2) by (simp add: Cons_nth_drop_Suc)
  then show ?case using it'(1,6) e(3,4)
    by (intro exI [of _ True] exI [of _ it'] exI [of _ e]) simp
qed

lemma add_all_zero:
  "strictly_increasing cmp (map fst kvs) \<Longrightarrow> keys_fit kvs \<Longrightarrow>
    \<exists>b. add_all (BlockBuilder_new cmp 0) kvs = Some b
        \<and> buffer b = expected_buffer 1 kvs (length kvs)
        \<and> bb_restarts b \<noteq> [] \<and> hd (bb_restarts b) = 0
        \<and> length (bb_restarts b) = length kvs + 1
        \<and> last_key b = (if kvs = [] then [] else fst (last kvs))
        \<and> \<not> finished b \<and> bb_comparator b = cmp \<and> block_restart_interval b = 0"
proof (induction kvs rule: rev_induct)
  case Nil
  show ?case by (simp add: BlockBuilder_new_def expected_buffer_def)
next
  case (snoc x xs)
  have inc: "strictly_increasing cmp (map fst xs)"
    and gt: "\<forall>y \<in> set xs. cmp (fst x) (fst y) > 0"
    using snoc.prems(1) by (auto simp: strictly_increasing_def sorted_wrt_append)
  have fit: "keys_fit xs" and len: "length (fst x) < 4294967296"
    using snoc.prems(2) by (auto simp: keys_fit_def)
  from snoc.IH [OF inc fit] obtain b where b:
    "add_all (BlockBuilder_new cmp 0) xs = Some b"
    "buffer b = expected_buffer 1 xs (length xs)"
    "bb_restarts b \<noteq> []" "hd (bb_restarts b) = 0"
    "length (bb_restarts b) = length xs + 1"
    "last_key b = (if xs = [] then [] else fst (last xs))"
    "\<not> finished b" "bb_comparator b = cmp" "block_restart_interval b = 0"
    by blast
  have ord: "buffer b = [] \<or> bb_comparator b (fst x) (last_key b) > 0"
  proof (cases "xs = []")
    case True then show ?thesis by (simp add: b expected_buffer_def)
  next
    case False
    then have "last xs \<in> set xs" by simp
    with gt show ?thesis using False by (simp add: b)
  qed
  have sh: "(0::nat) = (if counter b < block_restart_interval b
                 then common_prefix_length (last_key b) (fst x) else 0)"
    by (simp add: b)
  from add_step [OF b(7) ord len sh, of "snd x"] obtain b' where b':
    "add b (fst x) (snd x) = Some b'"
    "buffer b' = buffer b @ entry_bytes 0 (fst x) (snd x)"
    "last_key b' = fst x"
    "bb_restarts b' = (if counter b < block_restart_interval b then bb_restarts b
                       else bb_restarts b @ [of_nat (length (buffer b))])"
    "finished b' = False" "bb_comparator b' = bb_comparator b"
    "block_restart_interval b' = block_restart_interval b"
    by blast
  have buf: "buffer b' = expected_buffer 1 (xs @ [x]) (Suc (length xs))"
    by (simp add: b' b expected_buffer_Suc expected_buffer_append expected_entry_def
          expected_shared_def)
  have "add_all (BlockBuilder_new cmp 0) (xs @ [x]) = Some b'"
    by (simp add: add_all_append b b')
  then show ?case using buf by (simp add: b' b)
qed

lemma expected_restarts_length: "length (expected_restarts N kvs) \<le> length kvs + 1"
proof -
  have "length (filter (\<lambda>i. i mod N = 0) [1..<length kvs]) \<le> length [1..<length kvs]"
    by (rule length_filter_le)
  then show ?thesis by (simp add: expected_restarts_def)
qed

lemma build_layout:
  assumes inc: "strictly_increasing cmp (map fst kvs)" and fit: "keys_fit kvs"
  shows "\<exists>b. add_all (BlockBuilder_new cmp N) kvs = Some b
           \<and> buffer b = expected_buffer (if N = 0 then 1 else N) kvs (length kvs)
           \<and> bb_restarts b \<noteq> [] \<and> hd (bb_restarts b) = 0
           \<and> length (bb_restarts b) \<le> length kvs + 1"
proof (cases "N = 0")
  case True
  from add_all_zero [OF inc fit] show ?thesis unfolding True by auto
next
  case False
  then have "1 \<le> N" by simp
  from add_all_fresh [OF this inc fit] obtain b where
    "add_all (BlockBuilder_new cmp N) kvs = Some b"
    "buffer b = expected_buffer N kvs (length kvs)"
    "bb_restarts b = map of_nat (expected_restarts N kvs)"
    by blast
  then show ?thesis using False expected_restarts_length [of N kvs]
    by (auto simp: expected_restarts_def)
qed

lemma buffer_starts_with_zero:
  "0 < length kvs \<Longrightarrow> \<exists>C. expected_buffer N kvs (length kvs) = encodeInt 0 @ C"
proof -
  assume "0 < length kvs"
  from expected_buffer_split [OF this] obtain R where
    "expected_buffer N kvs (length kvs)
       = expected_buffer N kvs 0 @ expected_entry N kvs 0 @ R" by blast
  then show ?thesis
    by (simp add: expected_buffer_def expected_entry_def expected_shared_def entry_bytes_def)
qed

lemma unat_restart_words:
  assumes "4 * r + 4 < 4294967296"
  shows "unat (of_nat r :: u32) = r" "unat ((1 + of_nat r) * 4 :: u32) = 4 * r + 4"
    "unat (4 + of_nat r * 4 :: u32) = 4 * r + 4"
proof -
  show "unat (of_nat r :: u32) = r" using assms by (simp add: unat_of_nat32)
  have "((1 + of_nat r) * 4 :: u32) = of_nat (4 * r + 4)" by simp
  then show "unat ((1 + of_nat r) * 4 :: u32) = 4 * r + 4"
    using assms by (simp only: unat_of_nat32)
  have "(4 + of_nat r * 4 :: u32) = of_nat (4 * r + 4)" by simp
  then show "unat (4 + of_nat r * 4 :: u32) = 4 * r + 4"
    using assms by (simp only: unat_of_nat32)
qed

lemma Block_new_built:
  assumes "length buf + 4 * length rs + 4 < 4294967296"
  shows "Block_new u (buf @ concat (map encodeInt rs) @ encodeInt (of_nat (length rs)))
           = Some \<lparr> blk_data = buf @ concat (map encodeInt rs) @ encodeInt (of_nat (length rs)),
                    blk_size = length buf + 4 * length rs + 4,
                    restart_offset = of_nat (length buf),
                    blk_num_restarts = of_nat (length rs) \<rparr>"
proof -
  let ?D = "buf @ concat (map encodeInt rs) @ encodeInt (of_nat (length rs))"
  have sz: "length ?D = length buf + 4 * length rs + 4"
    by (simp add: length_concat_encodeInt)
  have r: "4 * length rs + 4 < 4294967296" using assms by simp
  have "decodeIntAt ((buf @ concat (map encodeInt rs)) @ encodeInt (of_nat (length rs)) @ [])
          (length (buf @ concat (map encodeInt rs))) = Some (of_nat (length rs))"
    by (rule decodeIntAt_append)
  then have d: "decodeIntAt ?D (length buf + 4 * length rs) = Some (of_nat (length rs))"
    by (simp add: length_concat_encodeInt)
  show ?thesis
    unfolding Block_new_def Let_def sz
    by (simp add: d unat_restart_words [OF r])
qed

lemma huge_length: "length huge_value = 4294967296"
  by (simp only: huge_value_def length_replicate)

lemma huge_build:
  "build_block (BlockBuilder_new bytewise_compare 16) huge_entry
     = Some (entry_bytes 0 ''k'' huge_value @ encodeInt 0 @ encodeInt 1)"
proof -
  have inc: "strictly_increasing bytewise_compare (map fst huge_entry)"
    by (simp add: strictly_increasing_def huge_entry_def)
  have fit: "keys_fit huge_entry" by (simp add: keys_fit_def huge_entry_def)
  have "1 \<le> (16::nat)" by simp
  from add_all_fresh [OF this inc fit] obtain b where b:
    "add_all (BlockBuilder_new bytewise_compare 16) huge_entry = Some b"
    "buffer b = expected_buffer 16 huge_entry (length huge_entry)"
    "bb_restarts b = map of_nat (expected_restarts 16 huge_entry)"
    by blast
  have "buffer b = entry_bytes 0 ''k'' huge_value"
    by (simp add: b(2) huge_entry_def expected_buffer_def expected_entry_def
          expected_shared_def)
  moreover have "bb_restarts b = [0]"
    by (simp add: b(3) huge_entry_def expected_restarts_def)
  ultimately have "fst (finish b) = entry_bytes 0 ''k'' huge_value @ encodeInt 0 @ encodeInt 1"
    by (simp add: finish_def Let_def)
  then show ?thesis unfolding build_block_def b(1) by simp
qed

lemma huge_read:
  "entries_read bytewise_compare 16 0 huge_entry = Some [(''k'', [])]"
proof -
  define E where "E = entry_bytes 0 ''k'' huge_value"
  define D where "D = E @ encodeInt 0 @ encodeInt 1"
  have lE: "length E = 4294967309" by (simp add: E_def entry_bytes_length huge_length)
  have lD: "length D = 4294967317" by (simp add: D_def lE)
  have "decodeIntAt ((E @ encodeInt 0) @ encodeInt 1 @ []) (length (E @ encodeInt 0)) = Some 1"
    by (rule decodeIntAt_append)
  then have cnt: "decodeIntAt D 4294967313 = Some 1" by (simp add: D_def lE)
  have blk: "Block_new 0 D = Some \<lparr> blk_data = D, blk_size = 4294967317,
                                     restart_offset = 13, blk_num_restarts = 1 \<rparr>"
    by (simp add: Block_new_def Let_def lD cnt)
  define it where
    "it = \<lparr> comparator = bytewise_compare, data = D, restarts = 13, num_restarts = 1,
             current = 0, current_restart = 0, key = [], val = None, status = OK \<rparr>"
  have built: "built_iterator bytewise_compare 16 0 huge_entry = Some it"
    unfolding built_iterator_def huge_build
    by (simp add: iterator_over_def D_def [symmetric] E_def [symmetric] blk iterator_def it_def)
  have D': "D = [] @ entry_bytes 0 ''k'' huge_value @ (encodeInt 0 @ encodeInt 1)"
    by (simp add: D_def E_def)
  have "decodeIntAt ([] @ encodeInt 0 @ (encodeInt 1 @ encodeInt (of_nat (length huge_value))
            @ ''k'' @ huge_value @ encodeInt 0 @ encodeInt 1)) (length ([] :: string)) = Some 0"
    by (rule decodeIntAt_append)
  then have d0: "decodeIntAt D 0 = Some 0" by (simp add: D_def E_def entry_bytes_def)
  have "decodeEntry ([] @ entry_bytes 0 ''k'' huge_value @ (encodeInt 0 @ encodeInt 1))
          (length ([] :: string)) 13
          = Some (Entry (length ([] :: string) + 12) (of_nat 0) (of_nat (length ''k'' - 0))
                    (of_nat (length huge_value)))"
    by (rule decodeEntry_entry) simp
  then have dec: "decodeEntry D 0 13 = Some (Entry 12 0 1 0)"
    by (simp add: D_def E_def huge_length)
  have "bytes_at ([] @ entry_bytes 0 ''k'' huge_value @ (encodeInt 0 @ encodeInt 1))
          (length ([] :: string) + 12) (length ''k'' - 0) = Some (drop 0 ''k'')"
    by (rule entry_key_bytes) simp
  then have kb: "bytes_at D 12 (Suc 0) = Some ''k''" by (simp add: D_def E_def)
  have vb: "bytes_at D 13 0 = Some []" by (simp add: bytes_at_def lD)
  define it1 where "it1 = it\<lparr>key := ''k'', val := Some (13, 0)\<rparr>"
  have f: "first it = Some it1"
    by (simp add: first_def seekToRestartPoint_def getRestartOffset_def it_def it1_def d0
          parseNextKeyVal_def nextEntryOffset_def dec kb Let_def resize_def restart_loop.simps)
  have v1: "valid it1" "key it1 = ''k''" "val_bytes it1 = Some []"
    by (simp_all add: it1_def it_def valid_def val_bytes_def vb)
  define e where "e = it1\<lparr>current := 13, current_restart := 1\<rparr>"
  have n: "next_entry it1 = Some e"
    using v1(1)
    by (simp add: next_entry_def parseNextKeyVal_def nextEntryOffset_def Let_def it1_def it_def
          e_def)
  have ve: "\<not> valid e" by (simp add: e_def it1_def it_def valid_def)
  have "collect_next (Suc 0) it1 = Some ([(''k'', [])], e)"
    by (simp add: v1 n ve)
  then have "iterate_forward (length huge_entry) it = Some ([(''k'', [])], e)"
    by (simp add: iterate_forward_def f huge_entry_def)
  then show ?thesis by (simp add: entries_read_def built)
qed

text \<open>
  C1, as stated, fails on the code for an entry that the 32-bit fields cannot hold:
  for the one entry with key \<open>k\<close> and a value of \<open>2^32\<close> bytes \<open>add\<close> stores the
  value length 0, and the reader gets the entry with an empty value.
\<close>

theorem huge_value_counterexample:
  "strictly_increasing bytewise_compare (map fst huge_entry)
   \<and> entries_read bytewise_compare 16 0 huge_entry = Some [(''k'', [])]
   \<and> huge_entry \<noteq> [(''k'', [])]"
proof -
  have "strictly_increasing bytewise_compare (map fst huge_entry)"
    by (simp add: strictly_increasing_def huge_entry_def)
  moreover have "huge_value \<noteq> []" using huge_length by auto
  ultimately show ?thesis using huge_read by (simp add: huge_entry_def)
qed

text \<open>
  C1, amended. For strictly increasing keys, whatever the comparator and the restart
  interval, and entries that fit the 32-bit fields of the format (\<open>block_fits\<close>), the
  adds and \<open>finish()\<close> return a block, \<open>Block\<close> accepts it, and \<open>first()\<close> followed by
  \<open>next()\<close> while the iterator is valid yields exactly the entries in order and
  leaves the iterator invalid, with the status OK.
\<close>

theorem forward_round_trip:
  assumes inc: "strictly_increasing cmp (map fst kvs)" and fits: "block_fits kvs"
  shows "\<exists>it e. built_iterator cmp N u kvs = Some it
           \<and> iterate_forward (length kvs) it = Some (kvs, e)
           \<and> \<not> valid e \<and> status e = OK
           \<and> entries_read cmp N u kvs = Some kvs"
proof -
  let ?n = "length kvs"
  define M where "M = (if N = 0 then 1 else N)"
  define buf where "buf = expected_buffer M kvs ?n"
  from build_layout [OF inc block_fits_keys [OF fits], of N] obtain b where b:
    "add_all (BlockBuilder_new cmp N) kvs = Some b" "buffer b = buf"
    "bb_restarts b \<noteq> []" "hd (bb_restarts b) = 0" "length (bb_restarts b) \<le> ?n + 1"
    unfolding M_def buf_def by blast
  define rs where "rs = bb_restarts b"
  define T where "T = concat (map encodeInt rs) @ encodeInt (of_nat (length rs))"
  have built: "build_block (BlockBuilder_new cmp N) kvs = Some (buf @ T)"
    by (simp add: build_block_def b(1) finish_def Let_def b(2) T_def rs_def)
  have size: "length buf + 4 * length rs + 4 < 4294967296"
    using block_fits_buffer [OF fits, of M] b(5) by (simp add: buf_def rs_def)
  define it where
    "it = \<lparr> comparator = cmp, data = buf @ T, restarts = of_nat (length buf),
             num_restarts = of_nat (length rs), current = 0, current_restart = 0,
             key = [], val = None, status = OK \<rparr>"
  have it: "built_iterator cmp N u kvs = Some it"
    unfolding built_iterator_def built T_def
    by (simp add: iterator_over_def Block_new_built [OF size] iterator_def it_def T_def)
  have urs: "unat (of_nat (length rs) :: u32) = length rs"
    using size by (simp add: unat_of_nat32)
  have "0 < length rs" using b(3) by (simp add: rs_def)
  then have num: "(0::u32) < of_nat (length rs)"
    by (simp add: word_less_nat_alt urs)
  have "\<exists>C. buf @ T = [] @ encodeInt 0 @ C"
  proof (cases "kvs = []")
    case True
    obtain r rs' where rs: "rs = r # rs'" using b(3) by (cases rs) (auto simp: rs_def)
    with b(4) have "r = 0" by (simp add: rs_def)
    then show ?thesis using True rs by (simp add: buf_def T_def expected_buffer_def)
  next
    case False
    then have "0 < ?n" by simp
    from buffer_starts_with_zero [OF this, of M] obtain C where
      "buf = encodeInt 0 @ C" unfolding buf_def by blast
    then show ?thesis by simp
  qed
  then obtain C where C: "buf @ T = [] @ encodeInt 0 @ C" by blast
  have "decodeIntAt ([] @ encodeInt 0 @ C) (length ([] :: string)) = Some 0"
    by (rule decodeIntAt_append)
  then have d0: "decodeIntAt (buf @ T) 0 = Some 0" unfolding C by simp
  define it1 where "it1 = it\<lparr>key := [], current_restart := 0, val := Some (0, 0)\<rparr>"
  have seek0: "seekToRestartPoint it 0 = Some it1"
    using num d0 by (simp add: seekToRestartPoint_def getRestartOffset_def it_def it1_def)
  have at: "at_entry M kvs T 0 it1"
    using num size urs
    by (simp add: at_entry_def entry_offset_def it1_def it_def buf_def [symmetric] T_def
          length_concat_encodeInt)
       (simp add: expected_buffer_def)
  from collect_from [OF fits at] obtain ok it' e where e:
    "parseNextKeyVal it1 = Some (ok, it')" "collect_next ?n it' = Some (kvs, e)"
    "\<not> valid e" "status e = status it1"
    by auto
  have "first it = Some it'" by (simp add: first_def seek0 e(1))
  then have "iterate_forward ?n it = Some (kvs, e)"
    by (simp add: iterate_forward_def e(2))
  moreover have "status e = OK" by (simp add: e(4) it1_def it_def)
  ultimately show ?thesis using it e(3) by (auto simp: entries_read_def)
qed

lemma example_fits: "block_fits example_kvs"
  by (simp add: block_fits_def block_bound_def example_kvs_def)

theorem forward_round_trip_witness:
  "strictly_increasing bytewise_compare (map fst example_kvs) \<and> block_fits example_kvs
   \<and> (\<exists>it e. built_iterator bytewise_compare 2 0 example_kvs = Some it
           \<and> iterate_forward (length example_kvs) it = Some (example_kvs, e)
           \<and> \<not> valid e \<and> status e = OK
           \<and> entries_read bytewise_compare 2 0 example_kvs = Some example_kvs)"
  using forward_round_trip [OF example_increasing example_fits, of 2 0]
    example_increasing example_fits
  by blast

section \<open>BlockBuilder: the restart invariant\<close>

lemma decode_fields_expected:
  assumes fits: "block_fits kvs"
  shows "i + m \<le> length kvs \<Longrightarrow>
         decode_fields m (expected_buffer N kvs (length kvs)) (entry_offset N kvs i)
           = Some (map (\<lambda>j. (expected_shared N kvs j,
                              length (fst (kvs ! j)) - expected_shared N kvs j)) [i..<i + m])"
proof (induction m arbitrary: i)
  case 0
  show ?case by simp
next
  case (Suc m)
  define buf where "buf = expected_buffer N kvs (length kvs)"
  define sh where "sh = expected_shared N kvs i"
  define k where "k = fst (kvs ! i)"
  define v where "v = snd (kvs ! i)"
  define A where "A = expected_buffer N kvs i"
  from Suc.prems have i: "i < length kvs" by simp
  from expected_buffer_split [OF i, of N kvs] obtain R where
    R: "buf = A @ entry_bytes sh k v @ R"
    unfolding buf_def A_def sh_def k_def v_def expected_entry_def by blast
  have off: "entry_offset N kvs i = length A" by (simp add: entry_offset_def A_def)
  have "kvs ! i \<in> set kvs" using i by simp
  from block_fits_elem [OF fits this] have
    lk: "length k < 4294967296" and lv: "length v < 4294967296"
    by (simp_all add: k_def v_def)
  have shk: "sh \<le> length k" using expected_shared_facts(1) [OF i] by (simp add: sh_def k_def)
  have lim: "length A + 3 \<le> length buf" by (simp add: R entry_bytes_length)
  have dec: "decodeEntry buf (length A) (length buf)
      = Some (Entry (length A + 12) (of_nat sh) (of_nat (length k - sh)) (of_nat (length v)))"
    using decodeEntry_entry [OF lim [unfolded R], of sh k v R] by (simp add: R)
  have ls: "sh < 4294967296" and ln: "length k - sh < 4294967296" using lk shk by simp_all
  note u = unat_of_nat32 [OF ls] unat_of_nat32 [OF ln] unat_of_nat32 [OF lv]
  have nxt: "length A + 12 + (length k - sh) + length v = entry_offset N kvs (Suc i)"
    by (simp add: entry_offset_Suc off expected_entry_def entry_bytes_length sh_def k_def v_def)
  have "Suc i + m \<le> length kvs" using Suc.prems by simp
  from Suc.IH [OF this] have ih:
    "decode_fields m buf (entry_offset N kvs (Suc i))
       = Some (map (\<lambda>j. (expected_shared N kvs j,
                          length (fst (kvs ! j)) - expected_shared N kvs j)) [Suc i..<Suc i + m])"
    by (simp add: buf_def)
  have "decode_fields (Suc m) buf (length A)
      = Some ((sh, length k - sh) #
              map (\<lambda>j. (expected_shared N kvs j,
                         length (fst (kvs ! j)) - expected_shared N kvs j)) [Suc i..<Suc i + m])"
    by (simp add: dec u nxt ih)
  moreover have "[i..<i + Suc m] = i # [Suc i..<Suc i + m]" by (simp add: upt_conv_Cons)
  ultimately show ?case by (simp add: buf_def off sh_def k_def)
qed

lemma expected_restarts_bound:
  assumes fits: "block_fits kvs" and x: "x \<in> set (expected_restarts N kvs)"
  shows "x < 4294967296"
proof -
  have top: "entry_offset N kvs (length kvs) < 4294967296"
    using block_fits_buffer [OF fits, of N] by (simp add: entry_offset_def)
  from x have "x = 0 \<or> (\<exists>i. 0 < i \<and> i < length kvs \<and> x = entry_offset N kvs i)"
    by (auto simp: expected_restarts_def)
  then show ?thesis
  proof
    assume "x = 0"
    then show ?thesis by simp
  next
    assume "\<exists>i. 0 < i \<and> i < length kvs \<and> x = entry_offset N kvs i"
    then obtain i where i: "0 < i" "i < length kvs" "x = entry_offset N kvs i" by blast
    then have "i - 1 < length kvs" "Suc (i - 1) = i" by simp_all
    with entry_offset_mono [of "i - 1" "length kvs" N kvs] i(3) top show ?thesis by simp
  qed
qed

lemma recorded_restarts_exact:
  assumes "block_fits kvs"
  shows "map unat (map of_nat (expected_restarts N kvs) :: u32 list) = expected_restarts N kvs"
proof -
  have "map (\<lambda>x. unat (of_nat x :: u32)) (expected_restarts N kvs)
          = map (\<lambda>x. x) (expected_restarts N kvs)"
    by (rule map_cong) (simp_all add: unat_of_nat32 expected_restarts_bound [OF assms])
  then show ?thesis by (simp add: comp_def)
qed

lemma huge_then_small_increasing:
  "strictly_increasing bytewise_compare (map fst huge_then_small)"
  by (simp add: strictly_increasing_def huge_then_small_def)

lemma huge_then_small_offset: "entry_offset 1 huge_then_small 1 = 4294967309"
  by (simp add: entry_offset_def expected_buffer_def expected_entry_def expected_shared_def
      huge_then_small_def entry_bytes_length huge_length)

lemma huge_then_small_restarts:
  "recorded_restarts bytewise_compare 1 huge_then_small = Some [0, 13]"
proof -
  have fit: "keys_fit huge_then_small" by (simp add: keys_fit_def huge_then_small_def)
  have l: "length huge_then_small = 2" by (simp add: huge_then_small_def)
  have "1 \<le> (1::nat)" by simp
  from add_all_fresh [OF this huge_then_small_increasing fit] obtain b where b:
    "add_all (BlockBuilder_new bytewise_compare 1) huge_then_small = Some b"
    "bb_restarts b = map of_nat (expected_restarts 1 huge_then_small)"
    by blast
  have "expected_restarts 1 huge_then_small = [0, 4294967309]"
    using huge_then_small_offset by (simp add: expected_restarts_def l numeral_2_eq_2)
  then have "map unat (bb_restarts b) = [0, 13]" by (simp add: b(2))
  then show ?thesis unfolding recorded_restarts_def b(1) by simp
qed

text \<open>
  C5, as stated, fails twice. On its concrete scenario, \<open>apple\<close> and \<open>application\<close>
  share the four bytes \<open>appl\<close>, so the fields of the second entry are \<open>(4, 7)\<close> and not
  \<open>(5, 7)\<close>. And the restart list holds 32-bit offsets: with restart interval 1, after an
  entry whose value is \<open>2^32\<close> bytes long the second entry starts at offset 4294967309 of
  the buffer, and the offset recorded for it is 13.
\<close>

theorem restart_offset_counterexample:
  "encoded_fields bytewise_compare 2 example_kvs \<noteq> Some [(0, 5), (5, 7), (0, 6)]
   \<and> strictly_increasing bytewise_compare (map fst huge_then_small)
   \<and> recorded_restarts bytewise_compare 1 huge_then_small = Some [0, 13]
   \<and> entry_offset 1 huge_then_small 1 = 4294967309"
  using example_fields huge_then_small_increasing huge_then_small_restarts
    huge_then_small_offset
  by simp

text \<open>
  C5, amended. For a restart interval \<open>N \<ge> 1\<close>, strictly increasing keys and entries
  whose sizes fit the block (the sum over the entries of 16 + key length + value length,
  plus 8, is below \<open>2^32\<close>) the adds succeed; the buffer is the concatenation of the
  entries; the \<open>shared\<close> field read back from every entry whose index is a multiple of
  \<open>N\<close> is 0 and that of every other entry is the length of the longest common prefix
  with the key before it, \<open>non_shared\<close> being the rest of the key; and the restart list
  holds 0 and the buffer offsets of the later entries whose index is a multiple of \<open>N\<close>,
  and nothing else. In the concrete scenario the fields are \<open>(0,5)\<close>, \<open>(4,7)\<close>, \<open>(0,6)\<close>
  and the restart list is 0 and the offset of the third entry.
\<close>

theorem restart_invariant:
  "(1 \<le> N \<and> strictly_increasing cmp (map fst kvs) \<and> block_fits kvs \<longrightarrow>
      (\<exists>b. add_all (BlockBuilder_new cmp N) kvs = Some b
           \<and> buffer b = expected_buffer N kvs (length kvs))
      \<and> encoded_fields cmp N kvs = Some (expected_fields N kvs)
      \<and> recorded_restarts cmp N kvs = Some (expected_restarts N kvs))
   \<and> encoded_fields bytewise_compare 2 example_kvs = Some [(0, 5), (4, 7), (0, 6)]
   \<and> recorded_restarts bytewise_compare 2 example_kvs = Some [0, entry_offset 2 example_kvs 2]"
proof -
  have gen: "(\<exists>b. add_all (BlockBuilder_new cmp N) kvs = Some b
           \<and> buffer b = expected_buffer N kvs (length kvs))
      \<and> encoded_fields cmp N kvs = Some (expected_fields N kvs)
      \<and> recorded_restarts cmp N kvs = Some (expected_restarts N kvs)"
    if N: "1 \<le> N" and inc: "strictly_increasing cmp (map fst kvs)" and fits: "block_fits kvs"
  proof -
    from add_all_fresh [OF N inc block_fits_keys [OF fits]] obtain b where b:
      "add_all (BlockBuilder_new cmp N) kvs = Some b"
      "buffer b = expected_buffer N kvs (length kvs)"
      "bb_restarts b = map of_nat (expected_restarts N kvs)"
      by blast
    have z: "entry_offset N kvs 0 = 0" by (simp add: entry_offset_def expected_buffer_def)
    have "decode_fields (length kvs) (buffer b) 0 = Some (expected_fields N kvs)"
      using decode_fields_expected [OF fits, of 0 "length kvs" N]
      by (simp add: b(2) z expected_fields_def)
    then have f: "encoded_fields cmp N kvs = Some (expected_fields N kvs)"
      by (simp add: encoded_fields_def b(1))
    have "map unat (bb_restarts b) = expected_restarts N kvs"
      unfolding b(3) by (rule recorded_restarts_exact [OF fits])
    then have r: "recorded_restarts cmp N kvs = Some (expected_restarts N kvs)"
      by (simp add: recorded_restarts_def b(1))
    from b(1) b(2) f r show ?thesis by blast
  qed
  have ex: "recorded_restarts bytewise_compare 2 example_kvs
              = Some [0, entry_offset 2 example_kvs 2]"
    using example_builder by (auto simp: recorded_restarts_def example_restarts)
  from gen ex example_fields show ?thesis by blast
qed

theorem restart_invariant_witness:
  "1 \<le> (2::nat) \<and> strictly_increasing bytewise_compare (map fst example_kvs)
   \<and> block_fits example_kvs
   \<and> (\<exists>b. add_all (BlockBuilder_new bytewise_compare 2) example_kvs = Some b
           \<and> buffer b = expected_buffer 2 example_kvs (length example_kvs))
   \<and> encoded_fields bytewise_compare 2 example_kvs = Some (expected_fields 2 example_kvs)
   \<and> recorded_restarts bytewise_compare 2 example_kvs = Some (expected_restarts 2 example_kvs)"
  using restart_invariant [of 2 bytewise_compare example_kvs]
    example_increasing example_fits
  by simp

section \<open>The block of a builder with no entry\<close>

lemma empty_build: "build_block (BlockBuilder_new cmp N) [] = Some empty_block_bytes"
  by (simp add: build_block_def finish_def BlockBuilder_new_def Let_def empty_block_bytes_def
      encodeInt_def char_of_def bit_Suc_0_iff)

lemma empty_Block_new: "Block_new u empty_block_bytes = Some empty_block"
  by (simp add: Block_new_def empty_block_bytes_def empty_block_def Let_def decodeIntAt_def
      bytes_at_def decodeInt_def)

lemma empty_first:
  "\<exists>s. first (positioned (iterator empty_block cmp) c r k v) = Some s \<and> \<not> valid s \<and> status s = OK"
  by (simp add: positioned_def iterator_def empty_block_def empty_block_bytes_def first_def
      seekToRestartPoint_def getRestartOffset_def decodeIntAt_def bytes_at_def decodeInt_def
      parseNextKeyVal_def nextEntryOffset_def valid_def Let_def)

lemma empty_last:
  "\<exists>s. last_entry (positioned (iterator empty_block cmp) c r k v) = Some s \<and> \<not> valid s \<and> status s = OK"
  apply (simp add: positioned_def iterator_def empty_block_def empty_block_bytes_def last_entry_def
      seekToRestartPoint_def getRestartOffset_def decodeIntAt_def bytes_at_def decodeInt_def)
  apply (subst last_loop.simps)
  apply (simp add: parseNextKeyVal_def nextEntryOffset_def valid_def Let_def)
  done

lemma empty_seek:
  "\<exists>s. seek (positioned (iterator empty_block cmp) c r k v) t = Some s \<and> \<not> valid s \<and> status s = OK"
  apply (simp add: positioned_def iterator_def empty_block_def empty_block_bytes_def seek_def valid_def Let_def)
  apply (subst binary_search.simps)
  apply (simp add: seekToRestartPoint_def getRestartOffset_def decodeIntAt_def bytes_at_def decodeInt_def)
  apply (subst seek_loop.simps)
  apply (simp add: parseNextKeyVal_def nextEntryOffset_def valid_def Let_def)
  done

text \<open>
  C10. A builder finished with no add returns eight bytes, the restart offset 0 and
  the restart count 1; \<open>Block\<close> accepts them; and from every position of an iterator
  over that block \<open>first()\<close>, \<open>last()\<close> and \<open>seek(t)\<close>, for every target \<open>t\<close> and every
  comparator, return with the iterator invalid and the status OK.
\<close>

theorem empty_block_iteration:
  "build_block (BlockBuilder_new cmp N) [] = Some empty_block_bytes
   \<and> length empty_block_bytes = 8
   \<and> empty_block_bytes = encodeInt 0 @ encodeInt 1
   \<and> Block_new u empty_block_bytes = Some empty_block
   \<and> (\<exists>s. first (positioned (iterator empty_block cmp) c r k v) = Some s
            \<and> \<not> valid s \<and> status s = OK)
   \<and> (\<exists>s. last_entry (positioned (iterator empty_block cmp) c r k v) = Some s
            \<and> \<not> valid s \<and> status s = OK)
   \<and> (\<exists>s. seek (positioned (iterator empty_block cmp) c r k v) t = Some s
            \<and> \<not> valid s \<and> status s = OK)"
proof -
  have "length empty_block_bytes = 8" by (simp add: empty_block_bytes_def)
  moreover have "empty_block_bytes = encodeInt 0 @ encodeInt 1"
    by (simp add: empty_block_bytes_def encodeInt_def char_of_def bit_Suc_0_iff)
  ultimately show ?thesis
    using empty_build [of cmp N] empty_Block_new [of u] empty_first [of cmp c r k v]
      empty_last [of cmp c r k v] empty_seek [of cmp c r k v t]
    by blast
qed

section \<open>The iterator on concrete blocks\<close>

lemmas eval_defs =
  first_def seekToRestartPoint_def getRestartOffset_def decodeIntAt_def bytes_at_def
  decodeInt_def parseNextKeyVal_def nextEntryOffset_def decodeEntry_def Let_def resize_def
  restart_loop.simps valid_def observe_def val_bytes_def next_entry_def seek_to_def

lemma two_entries_build:
  "build_block (BlockBuilder_new bytewise_compare 1) two_entries = Some two_entries_block"
proof -
  have inc: "strictly_increasing bytewise_compare (map fst two_entries)"
    by (simp add: strictly_increasing_def two_entries_def)
  have fit: "keys_fit two_entries" by (simp add: keys_fit_def two_entries_def)
  have "1 \<le> (1::nat)" by simp
  from add_all_fresh [OF this inc fit] obtain b where b:
    "add_all (BlockBuilder_new bytewise_compare 1) two_entries = Some b"
    "buffer b = expected_buffer 1 two_entries (length two_entries)"
    "bb_restarts b = map of_nat (expected_restarts 1 two_entries)"
    by blast
  have "fst (finish b) = two_entries_block"
    by (simp add: finish_def Let_def b)
       (simp add: two_entries_def two_entries_block_def expected_restarts_def entry_offset_def
          expected_buffer_def expected_entry_def expected_shared_def entry_bytes_def
          common_prefix_length_def encodeInt_def char_of_def bit_Suc_0_iff)
  then show ?thesis unfolding build_block_def b(1) by simp
qed

lemma two_entries_built:
  "built_iterator bytewise_compare 1 u two_entries = Some two_entries_iterator"
  unfolding built_iterator_def two_entries_build
  by (simp add: iterator_over_def Block_new_def two_entries_block_def two_entries_iterator_def
        iterator_def decodeIntAt_def bytes_at_def decodeInt_def Let_def)

lemma two_first:
  "first two_entries_iterator
     = Some (two_entries_iterator\<lparr>key := ''aaaaaaaaaaaa'', val := Some (24, 1)\<rparr>)"
  by (simp add: first_def seekToRestartPoint_def getRestartOffset_def two_entries_iterator_def
        two_entries_block_def decodeIntAt_def bytes_at_def decodeInt_def parseNextKeyVal_def
        nextEntryOffset_def decodeEntry_def Let_def resize_def restart_loop.simps)

lemma two_first_seek:
  "map_option observe (Option.bind (first two_entries_iterator) (seek_to ''b''))
     = Some (False, [], Some [], Corruption ''invalid entry in block'')"
  unfolding two_first
  by (simp add: seek_to_def seek_def valid_def two_entries_iterator_def Let_def
        binary_search.simps getRestartOffset_def two_entries_block_def decodeIntAt_def
        bytes_at_def decodeInt_def decodeEntry_def observe_def val_bytes_def)

lemma one_entry_build:
  "build_block (BlockBuilder_new bytewise_compare 16) one_entry = Some one_entry_block"
proof -
  have inc: "strictly_increasing bytewise_compare (map fst one_entry)"
    by (simp add: strictly_increasing_def one_entry_def)
  have fit: "keys_fit one_entry" by (simp add: keys_fit_def one_entry_def)
  have "1 \<le> (16::nat)" by simp
  from add_all_fresh [OF this inc fit] obtain b where b:
    "add_all (BlockBuilder_new bytewise_compare 16) one_entry = Some b"
    "buffer b = expected_buffer 16 one_entry (length one_entry)"
    "bb_restarts b = map of_nat (expected_restarts 16 one_entry)"
    by blast
  have "fst (finish b) = one_entry_block"
    by (simp add: finish_def Let_def b)
       (simp add: one_entry_def one_entry_block_def expected_restarts_def entry_offset_def
          expected_buffer_def expected_entry_def expected_shared_def entry_bytes_def
          common_prefix_length_def encodeInt_def char_of_def bit_Suc_0_iff)
  then show ?thesis unfolding build_block_def b(1) by simp
qed

lemma one_entry_built:
  "built_iterator bytewise_compare 16 u one_entry = Some one_entry_iterator"
  unfolding built_iterator_def one_entry_build
  by (simp add: iterator_over_def Block_new_def one_entry_block_def one_entry_iterator_def
        iterator_def decodeIntAt_def bytes_at_def decodeInt_def Let_def)

lemma one_first:
  "first one_entry_iterator = Some (one_entry_iterator\<lparr>key := ''a'', val := Some (13, 1)\<rparr>)"
  by (simp add: eval_defs one_entry_iterator_def one_entry_block_def)

lemma one_seek_empty_fresh:
  "map_option observe (seek one_entry_iterator []) = Some (True, [], Some [], OK)"
  by (simp add: seek_def eval_defs one_entry_iterator_def)

lemma one_seek_empty_positioned:
  "map_option observe (Option.bind (first one_entry_iterator) (seek_to []))
     = Some (True, ''a'', Some ''x'', OK)"
  unfolding one_first
  by (simp add: seek_def eval_defs one_entry_iterator_def one_entry_block_def
        binary_search.simps seek_loop.simps)

lemma two_next:
  "Option.bind (first two_entries_iterator) next_entry
     = Some (two_entries_iterator\<lparr>current := 25, current_restart := 1, key := ''b'',
                                   val := Some (38, 1)\<rparr>)"
  unfolding two_first
  by (simp add: eval_defs two_entries_iterator_def two_entries_block_def)

lemma two_next_seek:
  "map_option observe
     (Option.bind (Option.bind (first two_entries_iterator) next_entry) (seek_to ''b''))
     = Some (True, ''b'', Some ''y'', OK)"
  unfolding two_next
  by (simp add: seek_def eval_defs two_entries_iterator_def two_entries_block_def)

lemma two_fresh_seek:
  "map_option observe (seek two_entries_iterator ''b'')
     = Some (False, [], Some [], Corruption ''invalid entry in block'')"
  by (simp add: seek_def eval_defs two_entries_iterator_def two_entries_block_def
        binary_search.simps)

lemma two_last:
  "last_entry two_entries_iterator
     = Some (two_entries_iterator\<lparr>current := 12, current_restart := 1, val := Some (12, 0)\<rparr>)"
  by (simp add: last_entry_def last_loop.simps eval_defs two_entries_iterator_def
        two_entries_block_def)

lemma two_prev_from_last:
  "prev_entry (two_entries_iterator\<lparr>current := 12, current_restart := 1, val := Some (12, 0)\<rparr>)
     = Some (two_entries_iterator\<lparr>key := ''aaaaaaaaaaaa'', val := Some (24, 1)\<rparr>)"
  by (simp add: prev_entry_def prev_restart_loop.simps prev_loop.simps eval_defs
        two_entries_iterator_def two_entries_block_def)

lemma two_prev_from_first:
  "prev_entry (two_entries_iterator\<lparr>key := ''aaaaaaaaaaaa'', val := Some (24, 1)\<rparr>)
     = Some (two_entries_iterator\<lparr>current := 39, current_restart := 2,
               key := ''aaaaaaaaaaaa'', val := Some (24, 1)\<rparr>)"
  by (simp add: prev_entry_def prev_restart_loop.simps prev_loop.simps eval_defs
        two_entries_iterator_def two_entries_block_def)

lemma two_backward:
  "map_option fst (iterate_backward 2 two_entries_iterator)
     = Some [([], []), (''aaaaaaaaaaaa'', ''x'')]"
proof -
  define L where
    "L = two_entries_iterator\<lparr>current := 12, current_restart := 1, val := Some (12, 0)\<rparr>"
  define P where
    "P = two_entries_iterator\<lparr>key := ''aaaaaaaaaaaa'', val := Some (24, 1)\<rparr>"
  define E where
    "E = two_entries_iterator\<lparr>current := 39, current_restart := 2,
                              key := ''aaaaaaaaaaaa'', val := Some (24, 1)\<rparr>"
  have l: "last_entry two_entries_iterator = Some L" by (simp add: L_def two_last)
  have vL: "valid L" "key L = []" "val_bytes L = Some []"
    by (simp_all add: L_def valid_def val_bytes_def bytes_at_def two_entries_iterator_def
          two_entries_block_def)
  have pL: "prev_entry L = Some P" unfolding L_def P_def by (rule two_prev_from_last)
  have vP: "valid P" "key P = ''aaaaaaaaaaaa''" "val_bytes P = Some ''x''"
    by (simp_all add: P_def valid_def val_bytes_def bytes_at_def two_entries_iterator_def
          two_entries_block_def)
  have pP: "prev_entry P = Some E" unfolding P_def E_def by (rule two_prev_from_first)
  have vE: "\<not> valid E" by (simp add: E_def valid_def two_entries_iterator_def)
  have "collect_prev (Suc (Suc 0)) L = Some ([([], []), (''aaaaaaaaaaaa'', ''x'')], E)"
    by (simp add: vL pL vP pP vE)
  then show ?thesis by (simp add: iterate_backward_def l numeral_2_eq_2)
qed

lemma short_iterator:
  "iterator_over bytewise_compare u short_entry_block = Some short_entry_iterator"
  by (simp add: iterator_over_def Block_new_def short_entry_block_def encodeInt_def char_of_def bit_Suc_0_iff short_entry_iterator_def iterator_def
        decodeIntAt_def bytes_at_def decodeInt_def Let_def)

lemma short_first:
  "first short_entry_iterator = Some (short_entry_iterator\<lparr>val := Some (0, 0)\<rparr>)"
  by (simp add: eval_defs short_entry_iterator_def short_entry_block_def encodeInt_def char_of_def bit_Suc_0_iff)

lemma short_observed:
  "map_option observe (first short_entry_iterator) = Some (True, [], Some [], OK)"
  "map_option observe (last_entry short_entry_iterator) = Some (True, [], Some [], OK)"
  "map_option observe (Option.bind (first short_entry_iterator) next_entry)
     = Some (True, [], Some [], OK)"
  "map_option observe (Option.bind (first short_entry_iterator) (seek_to ''a''))
     = Some (True, [], Some [], OK)"
  unfolding short_first
  by (simp_all add: last_entry_def last_loop.simps seek_def binary_search.simps seek_loop.simps
        eval_defs short_entry_iterator_def short_entry_block_def encodeInt_def char_of_def bit_Suc_0_iff)

lemma overwritten_iterated:
  "iterate_bytes bytewise_compare u overwritten_block 1 = Some ([(''a'', ''x'')], OK)"
  by (simp add: iterate_bytes_def iterator_over_def overwritten_block_def one_entry_block_def
        Block_new_def iterator_def iterate_forward_def encodeInt_def char_of_def eval_defs)

lemma truncated_iterated:
  "Block_new u truncated_block
     = Some \<lparr> blk_data = truncated_block, blk_size = 0, restart_offset = u,
              blk_num_restarts = 256 \<rparr>"
  "iterate_bytes bytewise_compare 0 truncated_block 1 = Some ([], OK)"
  by (simp_all add: iterate_bytes_def iterator_over_def truncated_block_def one_entry_block_def
        Block_new_def iterator_def iterate_forward_def eval_defs)

lemma truncated_first:
  "map_option status (Option.bind (iterator_over bytewise_compare u truncated_block) first)
     = Some OK"
  by (simp add: iterator_over_def truncated_block_def one_entry_block_def Block_new_def
        iterator_def eval_defs) auto

text \<open>
  C2 fails on the code. In the block of the keys \<open>aaaaaaaaaaaa\<close> and \<open>b\<close> with a
  restart point each, \<open>seek(b)\<close> after \<open>first()\<close> ends with the corruption status and
  an invalid iterator although \<open>b\<close> is stored: \<open>getRestartOffset(1)\<close> reads the bytes at
  \<open>data_ + 4\<close>, the \<open>non_shared\<close> field 12 of the first entry, and not the restart
  table, and the search decodes the key bytes at offset 12 as an entry. And on a fresh
  iterator over the block of the one key \<open>a\<close>, \<open>seek\<close> of the empty target returns at
  once, valid, with the empty key, since \<open>current_\<close> starts at 0.
\<close>

theorem seek_misses_stored_key:
  "built_iterator bytewise_compare 1 u two_entries = Some two_entries_iterator
   \<and> map_option observe (Option.bind (first two_entries_iterator) (seek_to ''b''))
       = Some (False, [], Some [], Corruption ''invalid entry in block'')
   \<and> built_iterator bytewise_compare 16 u one_entry = Some one_entry_iterator
   \<and> map_option observe (seek one_entry_iterator []) = Some (True, [], Some [], OK)"
  using two_entries_built [of u] two_first_seek one_entry_built [of u] one_seek_empty_fresh
  by blast

text \<open>
  C3 fails on the code. Over a block whose data region is two bytes long
  \<open>decodeEntry\<close> returns the null pointer, and \<open>first()\<close>, \<open>last()\<close>, \<open>next()\<close> and the scan
  of \<open>seek\<close> return with the status OK and the iterator valid: \<open>parseNextKeyVal\<close>
  returns \<open>false\<close> and sets nothing.
\<close>

theorem malformed_entry_not_reported:
  "iterator_over bytewise_compare u short_entry_block = Some short_entry_iterator
   \<and> decodeEntry short_entry_block 0 2 = Some Nullptr
   \<and> map_option observe (first short_entry_iterator) = Some (True, [], Some [], OK)
   \<and> map_option observe (last_entry short_entry_iterator) = Some (True, [], Some [], OK)
   \<and> map_option observe (Option.bind (first short_entry_iterator) next_entry)
       = Some (True, [], Some [], OK)
   \<and> map_option observe (Option.bind (first short_entry_iterator) (seek_to ''a''))
       = Some (True, [], Some [], OK)"
proof -
  have "decodeEntry short_entry_block 0 2 = Some Nullptr"
    by (simp add: decodeEntry_def)
  then show ?thesis using short_iterator [of u] short_observed by blast
qed

text \<open>
  C4 fails on the code. With the restart offset of a one-entry block overwritten by
  \<open>0xFFFFFFFF\<close> the forward iteration gives the entry and ends with the status OK;
  with the block cut by its last byte the constructor takes the branch
  \<open>invalid block\<close>; whatever the unassigned \<open>restart_offset_\<close> holds, \<open>first()\<close>
  returns with the status OK, and when it holds 0 the iteration gives no entry and
  ends with the status OK.
\<close>

theorem corruption_not_detected:
  "build_block (BlockBuilder_new bytewise_compare 16) one_entry = Some one_entry_block
   \<and> iterate_bytes bytewise_compare u overwritten_block 1 = Some ([(''a'', ''x'')], OK)
   \<and> Block_new u truncated_block
       = Some \<lparr> blk_data = truncated_block, blk_size = 0, restart_offset = u,
                blk_num_restarts = 256 \<rparr>
   \<and> map_option status (Option.bind (iterator_over bytewise_compare u truncated_block) first)
       = Some OK
   \<and> iterate_bytes bytewise_compare 0 truncated_block 1 = Some ([], OK)"
  using one_entry_build overwritten_iterated [of u] truncated_iterated truncated_first [of u]
  by blast

text \<open>
  C6 fails on the code. Over the block of \<open>aaaaaaaaaaaa\<close> and \<open>b\<close> with a restart
  point each, \<open>last()\<close> seeks to the offset 12 that \<open>getRestartOffset(1)\<close> reads from
  the first entry, and \<open>last()\<close>, \<open>prev()\<close>, \<open>prev()\<close> give an empty key and value and
  then the first entry, not \<open>(b, y)\<close> and then the first entry.
\<close>

theorem backward_iteration_wrong:
  "built_iterator bytewise_compare 1 u two_entries = Some two_entries_iterator
   \<and> map_option fst (iterate_backward 2 two_entries_iterator)
       = Some [([], []), (''aaaaaaaaaaaa'', ''x'')]
   \<and> rev two_entries = [(''b'', ''y''), (''aaaaaaaaaaaa'', ''x'')]"
  using two_entries_built [of u] two_backward by (simp add: two_entries_def)

text \<open>
  C7 fails on the code. Over the block of \<open>aaaaaaaaaaaa\<close> and \<open>b\<close> with a restart
  point each, \<open>seek(b)\<close> from the position of \<open>b\<close> stays on \<open>b\<close>, and on a fresh
  iterator it ends invalid with the corruption status. Over the block of the one key \<open>a\<close>, \<open>seek\<close> of the
  empty target after \<open>first()\<close> lands on \<open>a\<close>, and on a fresh iterator it returns at
  once with the empty key.
\<close>

theorem seek_depends_on_position:
  "map_option observe
     (Option.bind (Option.bind (first two_entries_iterator) next_entry) (seek_to ''b''))
     = Some (True, ''b'', Some ''y'', OK)
   \<and> map_option observe (seek two_entries_iterator ''b'')
       = Some (False, [], Some [], Corruption ''invalid entry in block'')
   \<and> map_option observe (Option.bind (first one_entry_iterator) (seek_to []))
       = Some (True, ''a'', Some ''x'', OK)
   \<and> map_option observe (seek one_entry_iterator []) = Some (True, [], Some [], OK)"
  using two_next_seek two_fresh_seek one_seek_empty_positioned one_seek_empty_fresh
  by blast

end
